theory Spec2Isabelle
  imports Complex_Main "HOL-Library.Multiset"
begin

section \<open>The Gmail message retrieval layer (apps/web/utils/gmail/message.ts)\<close>

text \<open>
  The functions of \<^verbatim>\<open>message.ts\<close> are asynchronous and talk to the Gmail API. They are
  embedded as functions that pass a trace of effects: every network call, every suspension
  and every log entry is appended to the trace, and the answer of the remote side is a
  function of the trace so far (so it may change from one attempt to the next) and of the
  request. The collaborators that are imported from other modules (\<^verbatim>\<open>getBatch\<close>,
  \<^verbatim>\<open>parseMessage\<close>, \<^verbatim>\<open>extractDomainFromEmail\<close>, the Gmail client) are fields of an
  environment record; every theorem holds for all of them unless it names a particular one.
  An exception is a value \<open>Inl\<close> of a sum type. The two remote calls always answer: a
  rejected promise of the transport is outside the model, as the three primitives are calls
  that return. Numbers (the retry counter, \<^verbatim>\<open>maxResults\<close>, delays) are integers; values that
  are not integers, such as \<^verbatim>\<open>NaN\<close>, are outside the model.
\<close>

subsection \<open>Data\<close>

text \<open>
  A message id is a \<^verbatim>\<open>string\<close> by its TypeScript type. At run time an array read out of
  range gives \<^verbatim>\<open>undefined\<close>, and the Gmail schema declares \<^verbatim>\<open>id?: string | null\<close>, so an
  id is a \<open>string option\<close>, with \<open>None\<close> for \<^verbatim>\<open>undefined\<close> and \<^verbatim>\<open>null\<close>.
\<close>

type_synonym message_id = "string option"

text \<open>One entry of a batch response: \<^verbatim>\<open>MessageWithPayload | BatchError\<close>; \<^verbatim>\<open>isBatchError\<close>
  tells the two apart. A \<^verbatim>\<open>BatchError\<close> carries \<^verbatim>\<open>error.code\<close> and \<^verbatim>\<open>error.message\<close>.\<close>

datatype 'raw batch_item = Message 'raw | BatchError int string

fun isBatchError :: "'raw batch_item \<Rightarrow> bool" where
  "isBatchError (BatchError code msg) = True"
| "isBatchError (Message raw) = False"

text \<open>The parameters of \<^verbatim>\<open>gmail.users.messages.list\<close> (\<^verbatim>\<open>userId\<close> is always \<^verbatim>\<open>"me"\<close>).\<close>

record list_request =
  q :: "string option"
  maxResults :: "int option"
  pageToken :: "string option"
  labelIds :: "string list option"

text \<open>The \<^verbatim>\<open>data\<close> of a list response. Of every listed message only the \<^verbatim>\<open>id\<close> field is
  read, so a listed message is its id. The field \<^verbatim>\<open>messages\<close> is optional: \<open>None\<close> is an
  absent array, \<open>Some []\<close> an empty one.\<close>

record list_response =
  messages :: "message_id list option"
  nextPageToken :: "string option"

datatype error = Error string

datatype event =
    BatchGet "message_id list"
  | ListCall list_request
  | Sleep int
  | LogTooManyRetries "message_id list" int
  | LogErrorFetching int string
  | LogMissingMessages "message_id list"

type_synonym trace = "event list"

text \<open>
  The imported collaborators. \<open>getBatch\<close> takes the ids, the endpoint and the access token;
  \<open>list_messages\<close> is \<^verbatim>\<open>gmail.users.messages.list\<close>; \<open>numberToString\<close> is the text a
  template literal prints for a number (the conversion of a double to text is not modelled,
  so it is a parameter). Both remote calls answer from the trace so far.
  \<open>extractDomainFromEmail\<close> returns a string or nothing; the code tests its result for
  truthiness, so \<open>None\<close> and the empty string both count as no domain.
\<close>

record ('raw, 'p) env =
  getBatch :: "trace \<Rightarrow> message_id list \<Rightarrow> string \<Rightarrow> string \<Rightarrow> 'raw batch_item list"
  parseMessage :: "'raw \<Rightarrow> 'p"
  list_messages :: "trace \<Rightarrow> list_request \<Rightarrow> list_response"
  extractDomainFromEmail :: "string \<Rightarrow> string option"
  numberToString :: "rat \<Rightarrow> string"

subsection \<open>JavaScript primitives\<close>

text \<open>\<^verbatim>\<open>xs[i]\<close>: \<^verbatim>\<open>undefined\<close> out of range.\<close>

definition js_index :: "message_id list \<Rightarrow> nat \<Rightarrow> message_id" where
  "js_index xs i = (if i < length xs then xs ! i else None)"

text \<open>\<^verbatim>\<open>Set.prototype.add\<close>: a set keeps insertion order and ignores a value it already
  holds; \<^verbatim>\<open>Array.from\<close> reads it in that order, so a set is the list of its elements.\<close>

definition set_add :: "'a list \<Rightarrow> 'a \<Rightarrow> 'a list" where
  "set_add s x = (if x \<in> set s then s else s @ [x])"

text \<open>\<^verbatim>\<open>.filter(isDefined)\<close>: drops \<^verbatim>\<open>undefined\<close> and \<^verbatim>\<open>null\<close>.\<close>

fun filter_isDefined :: "'a option list \<Rightarrow> 'a list" where
  "filter_isDefined [] = []"
| "filter_isDefined (None # xs) = filter_isDefined xs"
| "filter_isDefined (Some x # xs) = x # filter_isDefined xs"

text \<open>Truthiness of a value of type \<^verbatim>\<open>string | null | undefined\<close>: the empty string is falsy.\<close>

fun truthy :: "string option \<Rightarrow> bool" where
  "truthy None = False"
| "truthy (Some s) = (s \<noteq> [])"

subsection \<open>getMessagesBatch\<close>

text \<open>
  The callback of \<^verbatim>\<open>batch.map((message, i) => ...)\<close>, run over the batch from index \<open>i\<close>:
  an error entry is logged, its id \<^verbatim>\<open>messageIds[i]\<close> is added to the set of missing ids and
  the callback returns \<^verbatim>\<open>undefined\<close>; any other entry is parsed.
\<close>

fun map_batch ::
  "('raw \<Rightarrow> 'p) \<Rightarrow> message_id list \<Rightarrow> nat \<Rightarrow> 'raw batch_item list \<Rightarrow> message_id list \<Rightarrow> trace
    \<Rightarrow> 'p option list \<times> message_id list \<times> trace" where
  "map_batch parse messageIds i [] missingMessageIds tr = ([], missingMessageIds, tr)"
| "map_batch parse messageIds i (BatchError code msg # rest) missingMessageIds tr =
     (case map_batch parse messageIds (Suc i) rest
             (set_add missingMessageIds (js_index messageIds i))
             (tr @ [LogErrorFetching code msg]) of
        (out, missing', tr') \<Rightarrow> (None # out, missing', tr'))"
| "map_batch parse messageIds i (Message raw # rest) missingMessageIds tr =
     (case map_batch parse messageIds (Suc i) rest missingMessageIds tr of
        (out, missing', tr') \<Rightarrow> (Some (parse raw) # out, missing', tr'))"

definition endpoint :: string where
  "endpoint = ''/gmail/v1/users/me/messages''"

function getMessagesBatch ::
  "('raw, 'p) env \<Rightarrow> message_id list \<Rightarrow> string \<Rightarrow> int \<Rightarrow> trace \<Rightarrow> (error + 'p list) \<times> trace" where
  "getMessagesBatch env messageIds accessToken retryCount tr =
     (if retryCount > 3 then (Inr [], tr @ [LogTooManyRetries messageIds retryCount])
      else if length messageIds > 100 then (Inl (Error ''Too many messages. Max 1000''), tr)
      else
        (case map_batch (parseMessage env) messageIds 0
                (getBatch env tr messageIds endpoint accessToken) []
                (tr @ [BatchGet messageIds]) of
           (mapped, missingMessageIds, tr1) \<Rightarrow>
             if missingMessageIds \<noteq> [] then
               (case getMessagesBatch env missingMessageIds accessToken (retryCount + 1)
                       (tr1 @ [LogMissingMessages missingMessageIds, Sleep (1000 * (retryCount + 1))]) of
                  (Inl e, tr2) \<Rightarrow> (Inl e, tr2)
                | (Inr missingMessages, tr2) \<Rightarrow> (Inr (filter_isDefined mapped @ missingMessages), tr2))
             else (Inr (filter_isDefined mapped), tr1)))"
  by pat_completeness auto
termination
  by (relation "measure (\<lambda>(env, messageIds, accessToken, retryCount, tr). nat (4 - retryCount))") auto

declare getMessagesBatch.simps [simp del]

subsection \<open>getMessages, queryBatchMessages, queryBatchMessagesPages\<close>

definition getMessages ::
  "('raw, 'p) env \<Rightarrow> string option \<Rightarrow> int option \<Rightarrow> string option \<Rightarrow> string list option
    \<Rightarrow> trace \<Rightarrow> list_response \<times> trace" where
  "getMessages env query maxResultsOpt pageTokenOpt labelIdsOpt tr =
     (let request = \<lparr>q = query, maxResults = maxResultsOpt, pageToken = pageTokenOpt,
                      labelIds = labelIdsOpt\<rparr>
      in (list_messages env tr request, tr @ [ListCall request]))"

text \<open>The object \<^verbatim>\<open>{ messages, nextPageToken }\<close> that \<^verbatim>\<open>queryBatchMessages\<close> returns.\<close>

record 'p page =
  page_messages :: "'p list"
  page_nextPageToken :: "string option"

text \<open>
  \<^verbatim>\<open>maxResults = 20\<close> is a default parameter: it applies when the argument is absent.
  \<^verbatim>\<open>!messages.messages\<close> holds for an absent array only (an empty array is truthy), and
  so does \<^verbatim>\<open>(await getMessagesBatch(...)) || []\<close> keep what the call returns.
\<close>

definition queryBatchMessages ::
  "('raw, 'p) env \<Rightarrow> string \<Rightarrow> string option \<Rightarrow> int option \<Rightarrow> string option \<Rightarrow> trace
    \<Rightarrow> (error + 'p page) \<times> trace" where
  "queryBatchMessages env accessToken query maxResultsOpt pageTokenOpt tr =
     (let maxResults' = (case maxResultsOpt of None \<Rightarrow> 20 | Some m \<Rightarrow> m) in
      if maxResults' > 20 then
        (Inl (Error ''Max results must be 20 or Google will rate limit us and return 429 errors.''), tr)
      else
        (case getMessages env query (Some maxResults') pageTokenOpt None tr of
           (response, tr1) \<Rightarrow>
             (case messages response of
                None \<Rightarrow> (Inr \<lparr>page_messages = [], page_nextPageToken = None\<rparr>, tr1)
              | Some ms \<Rightarrow>
                  (case getMessagesBatch env (map Some (filter_isDefined ms)) accessToken 0 tr1 of
                     (Inl e, tr2) \<Rightarrow> (Inl e, tr2)
                   | (Inr parsed, tr2) \<Rightarrow>
                       (Inr \<lparr>page_messages = parsed,
                             page_nextPageToken = nextPageToken response\<rparr>, tr2)))))"

text \<open>\<^verbatim>\<open>nextToken || undefined\<close>.\<close>

definition or_undefined :: "string option \<Rightarrow> string option" where
  "or_undefined t = (if truthy t then t else None)"

text \<open>
  The \<^verbatim>\<open>do ... while\<close> loop of \<^verbatim>\<open>queryBatchMessagesPages\<close>, entered with the messages
  collected so far and the current page token. Nothing in the code bounds the number of
  rounds, so the loop is a partial function: \<open>None\<close> is a loop that never returns.
\<close>

partial_function (option) queryBatchMessagesPages_loop ::
  "('raw, 'p) env \<Rightarrow> string \<Rightarrow> string \<Rightarrow> int \<Rightarrow> 'p list \<Rightarrow> string option \<Rightarrow> trace
    \<Rightarrow> ((error + 'p list) \<times> trace) option" where
  "queryBatchMessagesPages_loop env accessToken query maxResults' msgs nextPageToken' tr =
     (case queryBatchMessages env accessToken (Some query) None nextPageToken' tr of
        (Inl e, tr1) \<Rightarrow> Some (Inl e, tr1)
      | (Inr page, tr1) \<Rightarrow>
          (if truthy (or_undefined (page_nextPageToken page))
               \<and> int (length (msgs @ page_messages page)) < maxResults'
           then queryBatchMessagesPages_loop env accessToken query maxResults'
                  (msgs @ page_messages page) (or_undefined (page_nextPageToken page)) tr1
           else Some (Inr (msgs @ page_messages page), tr1)))"

definition queryBatchMessagesPages ::
  "('raw, 'p) env \<Rightarrow> string \<Rightarrow> string \<Rightarrow> int \<Rightarrow> trace \<Rightarrow> ((error + 'p list) \<times> trace) option" where
  "queryBatchMessagesPages env accessToken query maxResults' tr =
     queryBatchMessagesPages_loop env accessToken query maxResults' [] None tr"

subsection \<open>Previous communication with a sender\<close>

text \<open>\<^verbatim>\<open>x || []\<close> for an optional array.\<close>

fun or_empty :: "'a list option \<Rightarrow> 'a list" where
  "or_empty None = []"
| "or_empty (Some xs) = xs"

text \<open>
  \<^verbatim>\<open>Promise.all\<close> starts the incoming search, then the outgoing search, and waits for both;
  the two requests enter the trace in that order.
\<close>

definition findPreviousEmailsWithSender ::
  "('raw, 'p) env \<Rightarrow> string \<Rightarrow> rat \<Rightarrow> trace \<Rightarrow> message_id list \<times> trace" where
  "findPreviousEmailsWithSender env sender dateInSeconds tr =
     (let incoming = \<lparr>q = Some (''from:'' @ sender @ '' before:'' @ numberToString env dateInSeconds),
                       maxResults = Some 2, pageToken = None, labelIds = None\<rparr>;
          outgoing = \<lparr>q = Some (''to:'' @ sender @ '' before:'' @ numberToString env dateInSeconds),
                       maxResults = Some 1, pageToken = None, labelIds = None\<rparr>;
          incomingEmails = list_messages env tr incoming;
          outgoingEmails = list_messages env (tr @ [ListCall incoming]) outgoing
      in (or_empty (messages incomingEmails) @ or_empty (messages outgoingEmails),
          tr @ [ListCall incoming, ListCall outgoing]))"

text \<open>The options \<^verbatim>\<open>{ from, date, messageId }\<close>; the date is its epoch time in milliseconds,
  the value of \<^verbatim>\<open>+new Date(options.date)\<close>.\<close>

record sender_options =
  sender_from :: string
  date :: int
  messageId :: string

definition hasPreviousCommunicationWithSender ::
  "('raw, 'p) env \<Rightarrow> sender_options \<Rightarrow> trace \<Rightarrow> bool \<times> trace" where
  "hasPreviousCommunicationWithSender env options tr =
     (case findPreviousEmailsWithSender env (sender_from options) (of_int (date options) / 1000) tr of
        (previousEmails, tr1) \<Rightarrow>
          (find (\<lambda>p. p \<noteq> Some (messageId options)) previousEmails \<noteq> None, tr1))"

definition PUBLIC_DOMAINS :: "string set" where
  "PUBLIC_DOMAINS =
     {''gmail.com'', ''yahoo.com'', ''hotmail.com'', ''outlook.com'', ''aol.com'', ''icloud.com'',
      ''@me.com'', ''protonmail.com'', ''zoho.com'', ''yandex.com'', ''fastmail.com'', ''gmx.com'',
      ''@hey.com''}"

text \<open>\<^verbatim>\<open>String.prototype.toLowerCase\<close> on the letters A to Z; every other character is kept
  (a string is a list of 8-bit characters here, so case mapping beyond ASCII is not modelled).\<close>

definition lower_char :: "char \<Rightarrow> char" where
  "lower_char c =
     (case map_of (zip ''ABCDEFGHIJKLMNOPQRSTUVWXYZ'' ''abcdefghijklmnopqrstuvwxyz'') c of
        None \<Rightarrow> c | Some l \<Rightarrow> l)"

definition toLowerCase :: "string \<Rightarrow> string" where
  "toLowerCase s = map lower_char s"

definition hasPreviousCommunicationsWithSenderOrDomain ::
  "('raw, 'p) env \<Rightarrow> sender_options \<Rightarrow> trace \<Rightarrow> bool \<times> trace" where
  "hasPreviousCommunicationsWithSenderOrDomain env options tr =
     (case extractDomainFromEmail env (sender_from options) of
        None \<Rightarrow> hasPreviousCommunicationWithSender env options tr
      | Some domain \<Rightarrow>
          if domain = [] then hasPreviousCommunicationWithSender env options tr
          else
            (let searchTerm = (if toLowerCase domain \<in> PUBLIC_DOMAINS
                               then sender_from options else domain)
             in hasPreviousCommunicationWithSender env (options\<lparr>sender_from := searchTerm\<rparr>) tr))"

section \<open>Notions used to state the properties\<close>

text \<open>What one batch response contributes: the parsed messages of its successful entries,
  the log entries of its failed ones, and the ids at the positions of the failed ones.\<close>

fun messages_of :: "('raw \<Rightarrow> 'p) \<Rightarrow> 'raw batch_item list \<Rightarrow> 'p list" where
  "messages_of parse [] = []"
| "messages_of parse (Message raw # rest) = parse raw # messages_of parse rest"
| "messages_of parse (BatchError code msg # rest) = messages_of parse rest"

fun error_logs :: "'raw batch_item list \<Rightarrow> event list" where
  "error_logs [] = []"
| "error_logs (Message raw # rest) = error_logs rest"
| "error_logs (BatchError code msg # rest) = LogErrorFetching code msg # error_logs rest"

definition failed_ids :: "message_id list \<Rightarrow> 'raw batch_item list \<Rightarrow> message_id list" where
  "failed_ids messageIds batch =
     map (js_index messageIds) (filter (\<lambda>j. isBatchError (batch ! j)) [0..<length batch])"

text \<open>The first occurrence of every element, in order.\<close>

fun dedup :: "'a list \<Rightarrow> 'a list" where
  "dedup [] = []"
| "dedup (x # xs) = x # filter (\<lambda>y. y \<noteq> x) (dedup xs)"

definition missing_ids :: "message_id list \<Rightarrow> 'raw batch_item list \<Rightarrow> message_id list" where
  "missing_ids messageIds batch = dedup (failed_ids messageIds batch)"

text \<open>Reading a trace: the batch requests and the suspensions.\<close>

fun isBatchGet :: "event \<Rightarrow> bool" where
  "isBatchGet (BatchGet ids) = True"
| "isBatchGet e = False"

definition batch_requests :: "trace \<Rightarrow> nat" where
  "batch_requests tr = length (filter isBatchGet tr)"

fun sleeps :: "trace \<Rightarrow> int list" where
  "sleeps [] = []"
| "sleeps (Sleep ms # tr) = ms # sleeps tr"
| "sleeps (e # tr) = sleeps tr"

text \<open>
  On a remote side that answers per attempt: \<open>first_answer respond k n i\<close> is the raw message
  of the first successful answer for id \<open>i\<close> among the \<open>n\<close> requests numbered from \<open>k\<close>, if
  there is one, and \<open>failures_from respond k n i\<close> is the number of failed answers for \<open>i\<close>
  before it (at most \<open>n\<close>).
\<close>

fun first_answer :: "(nat \<Rightarrow> message_id \<Rightarrow> 'raw batch_item) \<Rightarrow> nat \<Rightarrow> nat \<Rightarrow> message_id \<Rightarrow> 'raw option" where
  "first_answer respond k 0 i = None"
| "first_answer respond k (Suc n) i =
     (case respond k i of
        Message raw \<Rightarrow> Some raw
      | BatchError code msg \<Rightarrow> first_answer respond (Suc k) n i)"

fun failures_from :: "(nat \<Rightarrow> message_id \<Rightarrow> 'raw batch_item) \<Rightarrow> nat \<Rightarrow> nat \<Rightarrow> message_id \<Rightarrow> nat" where
  "failures_from respond k 0 i = 0"
| "failures_from respond k (Suc n) i =
     (if isBatchError (respond k i) then Suc (failures_from respond (Suc k) n i) else 0)"

text \<open>The list calls of a trace, and their requests in order.\<close>

fun isListCall :: "event \<Rightarrow> bool" where
  "isListCall (ListCall r) = True"
| "isListCall e = False"

definition list_calls :: "trace \<Rightarrow> nat" where
  "list_calls tr = length (filter isListCall tr)"

fun list_requests :: "trace \<Rightarrow> list_request list" where
  "list_requests [] = []"
| "list_requests (ListCall r # tr) = r # list_requests tr"
| "list_requests (e # tr) = list_requests tr"

text \<open>
  The request that \<open>queryBatchMessagesPages\<close> makes for a page token, and what one list
  response yields as a page when every listed message is fetched and \<open>deliver\<close> is the
  parsed message of an id: nothing and no token when the array is absent, else the messages
  of the ids that are defined and the token of the response.
\<close>

definition page_view :: "(string \<Rightarrow> 'p) \<Rightarrow> list_response \<Rightarrow> 'p list \<times> string option" where
  "page_view deliver r =
     (case messages r of
        None \<Rightarrow> ([], None)
      | Some ms \<Rightarrow> (map deliver (filter_isDefined ms), nextPageToken r))"

text \<open>
  The accumulation as the specification words it, over the pages the remote side serves in
  order, each with its next token: every page is appended in full, and the loop goes on to the
  next page only while the page came with a token and the accumulated count is below the
  limit. The second component lists the page tokens of the list calls made (the call after
  the last served page finds nothing).
\<close>

fun pages_spec ::
  "int \<Rightarrow> 'p list \<Rightarrow> string option \<Rightarrow> ('p list \<times> string option) list \<Rightarrow> 'p list \<times> string option list" where
  "pages_spec limit acc t [] = (acc, [t])"
| "pages_spec limit acc t ((page, next) # rest) =
     (if truthy next \<and> int (length (acc @ page)) < limit
      then (case pages_spec limit (acc @ page) next rest of (msgs, ts) \<Rightarrow> (msgs, t # ts))
      else (acc @ page, [t]))"

definition page_request :: "string \<Rightarrow> string option \<Rightarrow> list_request" where
  "page_request query t = \<lparr>q = Some query, maxResults = Some 20, pageToken = t, labelIds = None\<rparr>"

text \<open>The length of the list a run of \<open>queryBatchMessagesPages\<close> returns, when it returns
  one.\<close>

definition result_length :: "((error + 'p list) \<times> trace) option \<Rightarrow> nat option" where
  "result_length r =
     (case r of None \<Rightarrow> None | Some (Inl e, tr) \<Rightarrow> None | Some (Inr msgs, tr) \<Rightarrow> Some (length msgs))"

text \<open>The two searches of \<open>findPreviousEmailsWithSender\<close> for a search term and a date in
  epoch milliseconds.\<close>

definition incoming_request :: "('raw, 'p) env \<Rightarrow> string \<Rightarrow> int \<Rightarrow> list_request" where
  "incoming_request env term ms =
     \<lparr>q = Some (''from:'' @ term @ '' before:'' @ numberToString env (of_int ms / 1000)),
      maxResults = Some 2, pageToken = None, labelIds = None\<rparr>"

definition outgoing_request :: "('raw, 'p) env \<Rightarrow> string \<Rightarrow> int \<Rightarrow> list_request" where
  "outgoing_request env term ms =
     \<lparr>q = Some (''to:'' @ term @ '' before:'' @ numberToString env (of_int ms / 1000)),
      maxResults = Some 1, pageToken = None, labelIds = None\<rparr>"

subsection \<open>Test doubles\<close>

text \<open>
  Modelled from the spec: \<^verbatim>\<open>extractDomainFromEmail\<close> (imported from \<^verbatim>\<open>@/utils/email\<close>, not
  among the sources), of which the spec says that it resolves the sender's domain. This
  stand-in takes the text after the first \<^verbatim>\<open>@\<close>. It is used in examples only.
\<close>

definition domain_after_at :: "string \<Rightarrow> string option" where
  "domain_after_at s = (case dropWhile (\<lambda>c. c \<noteq> CHR ''@'') s of [] \<Rightarrow> None | c # d \<Rightarrow> Some d)"

text \<open>An environment for examples: raw messages and parsed messages are strings, the parser
  prefixes its input, and the two remote calls are given.\<close>

definition test_env ::
  "(trace \<Rightarrow> message_id list \<Rightarrow> string batch_item list) \<Rightarrow> (trace \<Rightarrow> list_request \<Rightarrow> list_response)
    \<Rightarrow> (string, string) env" where
  "test_env batch lst =
     \<lparr>getBatch = (\<lambda>tr ids ep tok. batch tr ids),
      parseMessage = (\<lambda>raw. ''parsed '' @ raw),
      list_messages = lst,
      extractDomainFromEmail = domain_after_at,
      numberToString = (\<lambda>x. ''1700000000'')\<rparr>"

text \<open>A remote side on which the entry for an id depends on the id and on the number of batch
  requests made before: \<open>respond k i\<close> is the answer for id \<open>i\<close> in request number \<open>k\<close>
  (counted from 0).\<close>

definition per_attempt ::
  "(nat \<Rightarrow> message_id \<Rightarrow> 'raw batch_item) \<Rightarrow> trace \<Rightarrow> message_id list \<Rightarrow> 'raw batch_item list" where
  "per_attempt respond tr ids = map (respond (batch_requests tr)) ids"

text \<open>An id fails with code 503 in the requests before the one numbered by the table (not at
  all when the table does not list it); \<^verbatim>\<open>undefined\<close> always fails.\<close>

definition flaky :: "(string \<times> nat) list \<Rightarrow> nat \<Rightarrow> message_id \<Rightarrow> string batch_item" where
  "flaky failures k i =
     (case i of
        None \<Rightarrow> BatchError 400 ''Bad Request''
      | Some s \<Rightarrow>
          if k < (case map_of failures s of None \<Rightarrow> 0 | Some n \<Rightarrow> n)
          then BatchError 503 ''Service Unavailable'' else Message (''raw '' @ s))"

definition no_list :: "trace \<Rightarrow> list_request \<Rightarrow> list_response" where
  "no_list tr request = \<lparr>messages = None, nextPageToken = None\<rparr>"

text \<open>A list call that finds nothing, a remote side that serves a script of list responses
  (the \<open>k\<close>-th list call gets the \<open>k\<close>-th response, later calls find nothing), and a page of
  \<open>n\<close> messages with a given next token.\<close>

definition empty_response :: list_response where
  "empty_response = \<lparr>messages = None, nextPageToken = None\<rparr>"

definition scripted :: "list_response list \<Rightarrow> trace \<Rightarrow> list_request \<Rightarrow> list_response" where
  "scripted ps tr request = (if list_calls tr < length ps then ps ! list_calls tr else empty_response)"

definition page_of_size :: "nat \<Rightarrow> string option \<Rightarrow> list_response" where
  "page_of_size n t = \<lparr>messages = Some (map Some (replicate n ''m'')), nextPageToken = t\<rparr>"

text \<open>A list call that answers an empty array together with a page token, and one that
  answers by the query string from a table.\<close>

definition empty_array_list :: "trace \<Rightarrow> list_request \<Rightarrow> list_response" where
  "empty_array_list tr request = \<lparr>messages = Some [], nextPageToken = Some ''next''\<rparr>"

definition fixed_list :: "(string \<times> message_id list) list \<Rightarrow> trace \<Rightarrow> list_request \<Rightarrow> list_response" where
  "fixed_list table tr request =
     \<lparr>messages = (case q request of None \<Rightarrow> None | Some query \<Rightarrow> map_of table query),
      nextPageToken = None\<rparr>"

section \<open>Properties of getMessagesBatch\<close>

subsection \<open>One round\<close>

lemma set_dedup: "set (dedup xs) = set xs"
  by (induction xs) auto

lemma length_dedup: "length (dedup xs) \<le> length xs"
  by (induction xs) (auto intro: le_trans [OF length_filter_le] le_SucI)

lemma fold_set_add: "fold (\<lambda>x s. set_add s x) xs s = s @ filter (\<lambda>y. y \<notin> set s) (dedup xs)"
proof (induction xs arbitrary: s)
  case Nil
  show ?case by simp
next
  case (Cons x xs)
  show ?case
  proof (cases "x \<in> set s")
    case True
    then have "filter (\<lambda>y. y \<notin> set s) (filter (\<lambda>y. y \<noteq> x) (dedup xs))
        = filter (\<lambda>y. y \<notin> set s) (dedup xs)"
      by (auto intro: filter_cong)
    moreover from True have "set_add s x = s"
      by (simp add: set_add_def)
    ultimately show ?thesis
      using True by (simp add: Cons.IH)
  next
    case False
    have "filter (\<lambda>y. y \<notin> set (s @ [x])) (dedup xs)
        = filter (\<lambda>y. y \<notin> set s) (filter (\<lambda>y. y \<noteq> x) (dedup xs))"
      by (auto intro: filter_cong)
    moreover from False have "set_add s x = s @ [x]"
      by (simp add: set_add_def)
    ultimately show ?thesis
      using False by (simp add: Cons.IH)
  qed
qed

lemma failing_positions_Cons:
  "filter (\<lambda>j. isBatchError ((b # rest) ! j)) [0..<Suc (length rest)]
     = (if isBatchError b then [0] else [])
       @ map Suc (filter (\<lambda>j. isBatchError (rest ! j)) [0..<length rest])"
  by (simp add: upt_conv_Cons map_Suc_upt [symmetric] filter_map comp_def del: upt_Suc)

lemma map_batch_eq:
  "map_batch parse messageIds i batch missing tr =
     (map (\<lambda>b. case b of Message raw \<Rightarrow> Some (parse raw) | BatchError c m \<Rightarrow> None) batch,
      fold (\<lambda>x s. set_add s x)
        (map (\<lambda>j. js_index messageIds (i + j))
           (filter (\<lambda>j. isBatchError (batch ! j)) [0..<length batch])) missing,
      tr @ error_logs batch)"
proof (induction parse messageIds i batch missing tr rule: map_batch.induct)
  case (1 parse messageIds i missingMessageIds tr)
  show ?case by simp
next
  case (2 parse messageIds i code msg rest missingMessageIds tr)
  then show ?case
    by (simp add: failing_positions_Cons comp_def del: upt_Suc)
next
  case (3 parse messageIds i raw rest missingMessageIds tr)
  then show ?case
    by (simp add: failing_positions_Cons comp_def del: upt_Suc)
qed

lemma filter_isDefined_map:
  "filter_isDefined (map (\<lambda>b. case b of Message raw \<Rightarrow> Some (parse raw) | BatchError c m \<Rightarrow> None) batch)
     = messages_of parse batch"
  by (induction parse batch rule: messages_of.induct) auto

lemma map_batch_0:
  "map_batch parse messageIds 0 batch [] tr =
     (map (\<lambda>b. case b of Message raw \<Rightarrow> Some (parse raw) | BatchError c m \<Rightarrow> None) batch,
      missing_ids messageIds batch, tr @ error_logs batch)"
  by (simp add: map_batch_eq fold_set_add missing_ids_def failed_ids_def)

lemma getMessagesBatch_exhausted:
  "3 < retryCount \<Longrightarrow>
     getMessagesBatch env messageIds accessToken retryCount tr =
       (Inr [], tr @ [LogTooManyRetries messageIds retryCount])"
  by (subst getMessagesBatch.simps) simp

lemma getMessagesBatch_too_many:
  "retryCount \<le> 3 \<Longrightarrow> 100 < length messageIds \<Longrightarrow>
     getMessagesBatch env messageIds accessToken retryCount tr =
       (Inl (Error ''Too many messages. Max 1000''), tr)"
  by (subst getMessagesBatch.simps) simp

lemma getMessagesBatch_round:
  assumes "retryCount \<le> 3" and "length messageIds \<le> 100"
  shows "getMessagesBatch env messageIds accessToken retryCount tr =
     (if missing_ids messageIds (getBatch env tr messageIds endpoint accessToken) \<noteq> [] then
        (case getMessagesBatch env
                (missing_ids messageIds (getBatch env tr messageIds endpoint accessToken))
                accessToken (retryCount + 1)
                (tr @ BatchGet messageIds # error_logs (getBatch env tr messageIds endpoint accessToken)
                   @ [LogMissingMessages (missing_ids messageIds (getBatch env tr messageIds endpoint accessToken)),
                      Sleep (1000 * (retryCount + 1))]) of
           (Inl e, tr2) \<Rightarrow> (Inl e, tr2)
         | (Inr missingMessages, tr2) \<Rightarrow>
             (Inr (messages_of (parseMessage env) (getBatch env tr messageIds endpoint accessToken)
                    @ missingMessages), tr2))
      else (Inr (messages_of (parseMessage env) (getBatch env tr messageIds endpoint accessToken)),
            tr @ BatchGet messageIds # error_logs (getBatch env tr messageIds endpoint accessToken)))"
  using assms
  by (subst getMessagesBatch.simps)
     (simp add: map_batch_0 filter_isDefined_map split: prod.split sum.split)

lemma messages_of_all_ok: "messages_of parse (map Message raws) = map parse raws"
  by (induction raws) auto

lemma error_logs_all_ok: "error_logs (map Message raws) = []"
  by (induction raws) auto

lemma failed_ids_all_ok: "failed_ids messageIds (map Message raws) = []"
  by (simp add: failed_ids_def filter_empty_conv)

subsection \<open>Traces, retries and the backoff\<close>

lemma batch_requests_error_logs: "batch_requests (error_logs batch) = 0"
  by (induction batch rule: error_logs.induct) (auto simp: batch_requests_def)

lemma sleeps_append: "sleeps (a @ b) = sleeps a @ sleeps b"
  by (induction a rule: sleeps.induct) auto

lemma sleeps_error_logs: "sleeps (error_logs batch) = []"
  by (induction batch rule: error_logs.induct) auto

lemma backoff_Cons:
  "1000 * (rc + 1) # map (\<lambda>l. 1000 * (rc + 1 + 1 + int l)) [0..<m]
     = map (\<lambda>l. 1000 * (rc + 1 + int l)) [0..<Suc m]"
  by (simp add: upt_conv_Cons map_Suc_upt [symmetric] comp_def algebra_simps del: upt_Suc)

lemma getMessagesBatch_done:
  assumes "retryCount \<le> 3" and "length messageIds \<le> 100"
    and "batch = getBatch env tr messageIds endpoint accessToken"
    and "missing_ids messageIds batch = []"
  shows "getMessagesBatch env messageIds accessToken retryCount tr =
           (Inr (messages_of (parseMessage env) batch), tr @ BatchGet messageIds # error_logs batch)"
  using assms by (simp add: getMessagesBatch_round)

lemma getMessagesBatch_retry:
  assumes "retryCount \<le> 3" and "length messageIds \<le> 100"
    and "batch = getBatch env tr messageIds endpoint accessToken"
    and "missing = missing_ids messageIds batch"
    and "missing \<noteq> []"
    and "getMessagesBatch env missing accessToken (retryCount + 1)
           (tr @ BatchGet messageIds # error_logs batch
              @ [LogMissingMessages missing, Sleep (1000 * (retryCount + 1))]) = (res, tr2)"
  shows "getMessagesBatch env messageIds accessToken retryCount tr =
           (case res of Inl e \<Rightarrow> Inl e
            | Inr missingMessages \<Rightarrow> Inr (messages_of (parseMessage env) batch @ missingMessages), tr2)"
  using assms by (cases res) (simp_all add: getMessagesBatch_round)

lemma getMessagesBatch_trace:
  "\<exists>res evs. getMessagesBatch env messageIds accessToken retryCount tr = (res, tr @ evs)
      \<and> batch_requests evs \<le> nat (4 - retryCount)
      \<and> length (sleeps evs) \<le> nat (4 - retryCount)
      \<and> sleeps evs = map (\<lambda>l. 1000 * (retryCount + 1 + int l)) [0..<length (sleeps evs)]"
proof (induction "nat (4 - retryCount)" arbitrary: retryCount messageIds tr)
  case 0
  then have "3 < retryCount" by simp
  then show ?case
    by (simp add: getMessagesBatch_exhausted batch_requests_def)
next
  case (Suc n)
  then have le: "retryCount \<le> 3" and n: "n = nat (4 - (retryCount + 1))" by simp_all
  show ?case
  proof (cases "100 < length messageIds")
    case True
    with le show ?thesis
      by (simp add: getMessagesBatch_too_many batch_requests_def)
  next
    case False
    then have len: "length messageIds \<le> 100" by simp
    define batch where "batch = getBatch env tr messageIds endpoint accessToken"
    define missing where "missing = missing_ids messageIds batch"
    define tr1 where "tr1 = tr @ BatchGet messageIds # error_logs batch
        @ [LogMissingMessages missing, Sleep (1000 * (retryCount + 1))]"
    show ?thesis
    proof (cases "missing = []")
      case True
      then have "getMessagesBatch env messageIds accessToken retryCount tr =
          (Inr (messages_of (parseMessage env) batch), tr @ BatchGet messageIds # error_logs batch)"
        using getMessagesBatch_done [OF le len batch_def] by (simp add: missing_def)
      moreover have "batch_requests (BatchGet messageIds # error_logs batch) = 1"
        using batch_requests_error_logs [of batch] by (simp add: batch_requests_def)
      moreover have "sleeps (BatchGet messageIds # error_logs batch) = []"
        by (simp add: sleeps_error_logs)
      ultimately show ?thesis using le by simp
    next
      case False
      from Suc.hyps(1) [OF n, of missing tr1]
      obtain res evs where rec: "getMessagesBatch env missing accessToken (retryCount + 1) tr1 = (res, tr1 @ evs)"
        and req: "batch_requests evs \<le> nat (4 - (retryCount + 1))"
        and sl: "length (sleeps evs) \<le> nat (4 - (retryCount + 1))"
        and seq: "sleeps evs = map (\<lambda>l. 1000 * (retryCount + 1 + 1 + int l)) [0..<length (sleeps evs)]"
        by blast
      define evs0 where "evs0 = BatchGet messageIds # error_logs batch
        @ [LogMissingMessages missing, Sleep (1000 * (retryCount + 1))] @ evs"
      have tr: "tr1 @ evs = tr @ evs0" by (simp add: tr1_def evs0_def)
      have "\<exists>res'. getMessagesBatch env messageIds accessToken retryCount tr = (res', tr1 @ evs)"
        using getMessagesBatch_retry [OF le len batch_def missing_def False rec [unfolded tr1_def]]
        unfolding tr1_def by blast
      then have "\<exists>res'. getMessagesBatch env messageIds accessToken retryCount tr = (res', tr @ evs0)"
        by (simp only: tr)
      moreover have "batch_requests evs0 = 1 + batch_requests evs"
        using batch_requests_error_logs [of batch]
        by (simp add: evs0_def batch_requests_def)
      moreover have s0: "sleeps evs0 = 1000 * (retryCount + 1) # sleeps evs"
        by (simp add: evs0_def sleeps_append sleeps_error_logs)
      moreover have "sleeps evs0 = map (\<lambda>l. 1000 * (retryCount + 1 + int l)) [0..<length (sleeps evs0)]"
        unfolding s0 by (subst seq) (simp only: backoff_Cons length_Cons length_map length_upt diff_zero)
      ultimately show ?thesis using req sl le by auto
    qed
  qed
qed

lemma failed_ids_map:
  "failed_ids ids (map f ids) = filter (\<lambda>i. isBatchError (f i)) ids"
proof -
  have 1: "filter (\<lambda>j. isBatchError (map f ids ! j)) [0..<length ids]
      = filter (\<lambda>j. isBatchError (f (ids ! j))) [0..<length ids]"
    by (rule filter_cong) auto
  have 2: "map (js_index ids) (filter P [0..<length ids]) = map (nth ids) (filter P [0..<length ids])" for P
    by (rule map_cong) (auto simp: js_index_def)
  have 3: "map (nth ids) (filter (\<lambda>j. isBatchError (f (ids ! j))) [0..<length ids])
      = filter (\<lambda>i. isBatchError (f i)) (map (nth ids) [0..<length ids])"
    by (simp add: filter_map comp_def)
  show ?thesis
    by (simp add: failed_ids_def 1 2 3 map_nth)
qed

lemma set_messages_of_map:
  "set (messages_of parse (map f ids)) = {parse raw | raw i. i \<in> set ids \<and> f i = Message raw}"
proof (induction ids)
  case Nil
  show ?case by simp
next
  case (Cons a ids)
  show ?case
    by (cases "f a") (auto simp: Cons.IH)
qed

lemma length_messages_of_map:
  "length (messages_of parse (map f ids)) = length (filter (\<lambda>i. \<not> isBatchError (f i)) ids)"
proof (induction ids)
  case Nil
  show ?case by simp
next
  case (Cons a ids)
  then show ?case
    by (cases "f a") auto
qed

lemma filter_swap: "filter Q (filter R ys) = filter R (filter Q ys)"
  by (induction ys) auto

lemma length_filter_dedup: "length (filter Q (dedup xs)) \<le> length (filter Q xs)"
proof (induction xs)
  case Nil
  show ?case by simp
next
  case (Cons x xs)
  have "length (filter Q (filter (\<lambda>y. y \<noteq> x) (dedup xs))) \<le> length (filter Q (dedup xs))"
    unfolding filter_swap [of Q] by (rule length_filter_le)
  with Cons show ?case by auto
qed

lemma first_answer_count:
  "length (filter (\<lambda>i. first_answer respond k (Suc n) i \<noteq> None) ids)
     = length (filter (\<lambda>i. \<not> isBatchError (respond k i)) ids)
       + length (filter (\<lambda>i. first_answer respond (Suc k) n i \<noteq> None)
                  (filter (\<lambda>i. isBatchError (respond k i)) ids))"
proof (induction ids)
  case Nil
  show ?case by simp
next
  case (Cons a ids)
  then show ?case
    by (cases "respond k a") auto
qed

lemma per_attempt_retries:
  assumes remote: "\<And>tr ids. getBatch env tr ids endpoint accessToken = per_attempt respond tr ids"
  shows "length messageIds \<le> 100 \<Longrightarrow> k + n = 4 \<Longrightarrow> batch_requests tr = k \<Longrightarrow>
    \<exists>msgs evs. getMessagesBatch env messageIds accessToken (int k) tr = (Inr msgs, tr @ evs)
      \<and> set msgs = {parseMessage env raw | raw i. i \<in> set messageIds \<and> first_answer respond k n i = Some raw}
      \<and> length msgs \<le> length (filter (\<lambda>i. first_answer respond k n i \<noteq> None) messageIds)
      \<and> (\<forall>i \<in> set messageIds. failures_from respond k n i \<le> length (sleeps evs))
      \<and> ((\<exists>i \<in> set messageIds. first_answer respond k n i = None) \<longrightarrow>
           (\<exists>m. evs \<noteq> [] \<and> last evs = LogTooManyRetries m 4
              \<and> set m = {i \<in> set messageIds. first_answer respond k n i = None}))"
proof (induction n arbitrary: k messageIds tr)
  case 0
  then have "getMessagesBatch env messageIds accessToken (int k) tr
      = (Inr [], tr @ [LogTooManyRetries messageIds 4])"
    by (simp add: getMessagesBatch_exhausted)
  then show ?case by simp
next
  case (Suc n)
  from Suc.prems have le: "int k \<le> 3" and len: "length messageIds \<le> 100" by simp_all
  define batch where "batch = getBatch env tr messageIds endpoint accessToken"
  have batch: "batch = map (respond k) messageIds"
    using Suc.prems by (simp add: batch_def remote per_attempt_def)
  define missing where "missing = missing_ids messageIds batch"
  have missing: "missing = dedup (filter (\<lambda>i. isBatchError (respond k i)) messageIds)"
    by (simp add: missing_def missing_ids_def batch failed_ids_map)
  have set_missing: "set missing = {i \<in> set messageIds. isBatchError (respond k i)}"
    by (auto simp: missing set_dedup)
  define messages where "messages = messages_of (parseMessage env) batch"
  have set_messages: "set messages
      = {parseMessage env raw | raw i. i \<in> set messageIds \<and> respond k i = Message raw}"
    by (simp add: messages_def batch set_messages_of_map)
  have len_messages: "length messages = length (filter (\<lambda>i. \<not> isBatchError (respond k i)) messageIds)"
    by (simp add: messages_def batch length_messages_of_map)
  show ?case
  proof (cases "missing = []")
    case True
    have res: "getMessagesBatch env messageIds accessToken (int k) tr
        = (Inr messages, tr @ BatchGet messageIds # error_logs batch)"
      using getMessagesBatch_done [OF le len batch_def] True
      by (simp add: missing_def messages_def)
    from True set_missing have ok: "\<And>i. i \<in> set messageIds \<Longrightarrow> \<not> isBatchError (respond k i)"
      by auto
    have fa: "first_answer respond k (Suc n) i = Some raw \<longleftrightarrow> respond k i = Message raw"
      if "i \<in> set messageIds" for i raw
      using ok [OF that] by (cases "respond k i") auto
    have a1: "set messages
        = {parseMessage env raw | raw i. i \<in> set messageIds \<and> first_answer respond k (Suc n) i = Some raw}"
      unfolding set_messages using fa by blast
    have a2: "length messages
        \<le> length (filter (\<lambda>i. first_answer respond k (Suc n) i \<noteq> None) messageIds)"
      unfolding len_messages first_answer_count by simp
    have a3: "\<forall>i \<in> set messageIds. failures_from respond k (Suc n) i
        \<le> length (sleeps (BatchGet messageIds # error_logs batch))"
      using ok by simp
    have "\<not> (\<exists>i \<in> set messageIds. first_answer respond k (Suc n) i = None)"
    proof
      assume "\<exists>i \<in> set messageIds. first_answer respond k (Suc n) i = None"
      then obtain i where i: "i \<in> set messageIds" and none: "first_answer respond k (Suc n) i = None"
        by blast
      from ok [OF i] obtain raw where "respond k i = Message raw"
        by (cases "respond k i") auto
      with none show False by simp
    qed
    then have a4: "(\<exists>i \<in> set messageIds. first_answer respond k (Suc n) i = None) \<longrightarrow>
        (\<exists>m. BatchGet messageIds # error_logs batch \<noteq> []
           \<and> last (BatchGet messageIds # error_logs batch) = LogTooManyRetries m 4
           \<and> set m = {i \<in> set messageIds. first_answer respond k (Suc n) i = None})"
      by blast
    show ?thesis
      by (intro exI [of _ messages] exI [of _ "BatchGet messageIds # error_logs batch"] conjI
          res a1 a2 a3 a4)
  next
    case False
    define tr1 where "tr1 = tr @ BatchGet messageIds # error_logs batch
        @ [LogMissingMessages missing, Sleep (1000 * (int k + 1))]"
    have "length missing \<le> length messageIds"
      unfolding missing by (rule le_trans [OF length_dedup length_filter_le])
    with len have len1: "length missing \<le> 100" by simp
    have k1: "Suc k + n = 4" using Suc.prems by simp
    have req1: "batch_requests tr1 = Suc k"
      using Suc.prems batch_requests_error_logs [of batch]
      by (simp add: tr1_def batch_requests_def)
    from Suc.IH [OF len1 k1 req1]
    obtain mm evs where rec: "getMessagesBatch env missing accessToken (int (Suc k)) tr1 = (Inr mm, tr1 @ evs)"
      and set_mm: "set mm = {parseMessage env raw | raw i. i \<in> set missing \<and> first_answer respond (Suc k) n i = Some raw}"
      and len_mm: "length mm \<le> length (filter (\<lambda>i. first_answer respond (Suc k) n i \<noteq> None) missing)"
      and sl: "\<forall>i \<in> set missing. failures_from respond (Suc k) n i \<le> length (sleeps evs)"
      and gone: "(\<exists>i \<in> set missing. first_answer respond (Suc k) n i = None) \<longrightarrow>
           (\<exists>m. evs \<noteq> [] \<and> last evs = LogTooManyRetries m 4
              \<and> set m = {i \<in> set missing. first_answer respond (Suc k) n i = None})"
      by blast
    have rec': "getMessagesBatch env missing accessToken (int k + 1)
        (tr @ BatchGet messageIds # error_logs batch
           @ [LogMissingMessages missing, Sleep (1000 * (int k + 1))]) = (Inr mm, tr1 @ evs)"
      using rec by (simp add: tr1_def add.commute)
    define evs0 where "evs0 = BatchGet messageIds # error_logs batch
        @ [LogMissingMessages missing, Sleep (1000 * (int k + 1))] @ evs"
    have tr: "tr1 @ evs = tr @ evs0"
      by (simp add: tr1_def evs0_def)
    have res: "getMessagesBatch env messageIds accessToken (int k) tr = (Inr (messages @ mm), tr @ evs0)"
      using getMessagesBatch_retry [OF le len batch_def missing_def False rec']
      by (simp add: tr messages_def)
    have failed: "first_answer respond k (Suc n) i = first_answer respond (Suc k) n i"
      if "isBatchError (respond k i)" for i
      using that by (cases "respond k i") auto
    have c1: "set (messages @ mm)
        = {parseMessage env raw | raw i. i \<in> set messageIds \<and> first_answer respond k (Suc n) i = Some raw}"
      (is "?L = ?R")
    proof (intro set_eqI iffI)
      fix p
      assume "p \<in> ?L"
      then consider (now) "p \<in> set messages" | (later) "p \<in> set mm"
        by auto
      then show "p \<in> ?R"
      proof cases
        case now
        then obtain raw i where "i \<in> set messageIds" "respond k i = Message raw" "p = parseMessage env raw"
          unfolding set_messages by blast
        moreover from this have "first_answer respond k (Suc n) i = Some raw"
          by simp
        ultimately show ?thesis by blast
      next
        case later
        then obtain raw i where i: "i \<in> set missing" "first_answer respond (Suc k) n i = Some raw"
            "p = parseMessage env raw"
          unfolding set_mm by blast
        from i(1) have "i \<in> set messageIds" "isBatchError (respond k i)"
          unfolding set_missing by simp_all
        with i(2) failed have "first_answer respond k (Suc n) i = Some raw"
          by simp
        with \<open>i \<in> set messageIds\<close> i(3) show ?thesis by blast
      qed
    next
      fix p
      assume "p \<in> ?R"
      then obtain raw i where i: "i \<in> set messageIds" "first_answer respond k (Suc n) i = Some raw"
          "p = parseMessage env raw"
        by blast
      show "p \<in> ?L"
      proof (cases "isBatchError (respond k i)")
        case True
        with i(1) have "i \<in> set missing"
          unfolding set_missing by simp
        moreover from True i(2) have "first_answer respond (Suc k) n i = Some raw"
          by (simp only: failed)
        ultimately have "p \<in> set mm"
          unfolding set_mm using i(3) by blast
        then show ?thesis by simp
      next
        case False
        with i(2) have "respond k i = Message raw"
          by (cases "respond k i") auto
        with i(1) i(3) have "p \<in> set messages"
          unfolding set_messages by blast
        then show ?thesis by simp
      qed
    qed
    have "length (filter (\<lambda>i. first_answer respond (Suc k) n i \<noteq> None) missing)
        \<le> length (filter (\<lambda>i. first_answer respond (Suc k) n i \<noteq> None)
             (filter (\<lambda>i. isBatchError (respond k i)) messageIds))"
      unfolding missing by (rule length_filter_dedup)
    with len_mm have c2: "length (messages @ mm)
        \<le> length (filter (\<lambda>i. first_answer respond k (Suc n) i \<noteq> None) messageIds)"
      unfolding length_append len_messages first_answer_count by simp
    have sl0: "sleeps evs0 = 1000 * (int k + 1) # sleeps evs"
      by (simp add: evs0_def sleeps_append sleeps_error_logs)
    have c3: "\<forall>i \<in> set messageIds. failures_from respond k (Suc n) i \<le> length (sleeps evs0)"
    proof
      fix i
      assume i: "i \<in> set messageIds"
      show "failures_from respond k (Suc n) i \<le> length (sleeps evs0)"
      proof (cases "isBatchError (respond k i)")
        case True
        with i have "i \<in> set missing"
          unfolding set_missing by simp
        with sl have "failures_from respond (Suc k) n i \<le> length (sleeps evs)"
          by blast
        with True show ?thesis
          by (simp add: sl0)
      next
        case False
        then show ?thesis by simp
      qed
    qed
    have c4: "(\<exists>i \<in> set messageIds. first_answer respond k (Suc n) i = None) \<longrightarrow>
            (\<exists>m. evs0 \<noteq> [] \<and> last evs0 = LogTooManyRetries m 4
              \<and> set m = {i \<in> set messageIds. first_answer respond k (Suc n) i = None})"
    proof
      assume "\<exists>i \<in> set messageIds. first_answer respond k (Suc n) i = None"
      then obtain i where i: "i \<in> set messageIds" "first_answer respond k (Suc n) i = None"
        by blast
      then have bad: "isBatchError (respond k i)"
        by (cases "respond k i") auto
      with i have "i \<in> set missing" "first_answer respond (Suc k) n i = None"
        unfolding set_missing by (simp_all only: failed mem_Collect_eq simp_thms)
      with gone obtain m where m: "evs \<noteq> []" "last evs = LogTooManyRetries m 4"
        "set m = {i \<in> set missing. first_answer respond (Suc k) n i = None}"
        by blast
      have "{i \<in> set missing. first_answer respond (Suc k) n i = None}
          = {i \<in> set messageIds. first_answer respond k (Suc n) i = None}"
      proof (intro set_eqI iffI)
        fix j
        assume "j \<in> {i \<in> set missing. first_answer respond (Suc k) n i = None}"
        then have "j \<in> set messageIds" "isBatchError (respond k j)"
            "first_answer respond (Suc k) n j = None"
          unfolding set_missing by simp_all
        then show "j \<in> {i \<in> set messageIds. first_answer respond k (Suc n) i = None}"
          by (simp only: failed mem_Collect_eq simp_thms)
      next
        fix j
        assume "j \<in> {i \<in> set messageIds. first_answer respond k (Suc n) i = None}"
        then have j: "j \<in> set messageIds" "first_answer respond k (Suc n) j = None"
          by simp_all
        then have "isBatchError (respond k j)"
          by (cases "respond k j") auto
        with j show "j \<in> {i \<in> set missing. first_answer respond (Suc k) n i = None}"
          unfolding set_missing by (simp only: failed mem_Collect_eq simp_thms)
      qed
      with m have "last evs = LogTooManyRetries m 4
          \<and> set m = {i \<in> set messageIds. first_answer respond k (Suc n) i = None}"
        by simp
      moreover from m(1) have "evs0 \<noteq> []" "last evs0 = last evs"
        by (simp_all add: evs0_def)
      ultimately show "\<exists>m. evs0 \<noteq> [] \<and> last evs0 = LogTooManyRetries m 4
              \<and> set m = {i \<in> set messageIds. first_answer respond k (Suc n) i = None}"
        by auto
    qed
    show ?thesis
      by (intro exI [of _ "messages @ mm"] exI [of _ evs0] conjI res c1 c2 c3 c4)
  qed
qed

lemma length_missing_ids: "length (missing_ids messageIds batch) \<le> length batch"
proof -
  have "length (missing_ids messageIds batch) \<le> length (failed_ids messageIds batch)"
    unfolding missing_ids_def by (rule length_dedup)
  also have "\<dots> \<le> length [0..<length batch]"
    unfolding failed_ids_def length_map by (rule length_filter_le)
  finally show ?thesis by simp
qed

lemma aligned_never_raises:
  assumes aligned: "\<And>tr ids. length (getBatch env tr ids endpoint accessToken) \<le> length ids"
  shows "length messageIds \<le> 100 \<Longrightarrow>
    \<exists>msgs tr'. getMessagesBatch env messageIds accessToken retryCount tr = (Inr msgs, tr')"
proof (induction "nat (4 - retryCount)" arbitrary: retryCount messageIds tr)
  case 0
  then have "3 < retryCount" by simp
  then show ?case
    by (simp add: getMessagesBatch_exhausted)
next
  case (Suc n)
  then have le: "retryCount \<le> 3" and n: "n = nat (4 - (retryCount + 1))"
    and len: "length messageIds \<le> 100"
    by simp_all
  define batch where "batch = getBatch env tr messageIds endpoint accessToken"
  define missing where "missing = missing_ids messageIds batch"
  show ?case
  proof (cases "missing = []")
    case True
    then show ?thesis
      using getMessagesBatch_done [OF le len batch_def] by (simp add: missing_def)
  next
    case False
    have "length missing \<le> length batch"
      unfolding missing_def by (rule length_missing_ids)
    also have "\<dots> \<le> length messageIds"
      unfolding batch_def by (rule aligned)
    finally have len1: "length missing \<le> 100"
      using len by simp
    from Suc.hyps(1) [OF n len1]
    obtain mm tr2 where "getMessagesBatch env missing accessToken (retryCount + 1)
        (tr @ BatchGet messageIds # error_logs batch
           @ [LogMissingMessages missing, Sleep (1000 * (retryCount + 1))]) = (Inr mm, tr2)"
      by blast
    from getMessagesBatch_retry [OF le len batch_def missing_def False this]
    show ?thesis by simp
  qed
qed

lemma first_answer_Some_iff:
  "first_answer respond k n i = Some raw \<longleftrightarrow>
     (\<exists>j<n. (\<forall>l<j. isBatchError (respond (k + l) i)) \<and> respond (k + j) i = Message raw)"
proof (induction n arbitrary: k)
  case 0
  show ?case by simp
next
  case (Suc n)
  show ?case
  proof (cases "respond k i")
    case (Message r)
    have "(\<exists>j<Suc n. (\<forall>l<j. isBatchError (respond (k + l) i)) \<and> respond (k + j) i = Message raw)
        \<longleftrightarrow> r = raw"
    proof
      assume "\<exists>j<Suc n. (\<forall>l<j. isBatchError (respond (k + l) i)) \<and> respond (k + j) i = Message raw"
      then obtain j where j: "\<forall>l<j. isBatchError (respond (k + l) i)" "respond (k + j) i = Message raw"
        by blast
      show "r = raw"
      proof (cases j)
        case 0
        with j(2) Message show ?thesis by simp
      next
        case (Suc j')
        with j(1) have "isBatchError (respond (k + 0) i)" by blast
        with Message show ?thesis by simp
      qed
    next
      assume "r = raw"
      with Message have "(\<forall>l<0. isBatchError (respond (k + l) i)) \<and> respond (k + 0) i = Message raw"
        by simp
      then show "\<exists>j<Suc n. (\<forall>l<j. isBatchError (respond (k + l) i)) \<and> respond (k + j) i = Message raw"
        by blast
    qed
    with Message show ?thesis by simp
  next
    case (BatchError c m)
    have "(\<exists>j<Suc n. (\<forall>l<j. isBatchError (respond (k + l) i)) \<and> respond (k + j) i = Message raw)
        \<longleftrightarrow> (\<exists>j<n. (\<forall>l<j. isBatchError (respond (Suc k + l) i)) \<and> respond (Suc k + j) i = Message raw)"
    proof
      assume "\<exists>j<Suc n. (\<forall>l<j. isBatchError (respond (k + l) i)) \<and> respond (k + j) i = Message raw"
      then obtain j where j: "j < Suc n" "\<forall>l<j. isBatchError (respond (k + l) i)"
          "respond (k + j) i = Message raw"
        by blast
      from j(3) BatchError obtain j' where j': "j = Suc j'"
        by (cases j) auto
      have "\<forall>l<j'. isBatchError (respond (Suc k + l) i)"
      proof (intro allI impI)
        fix l assume "l < j'"
        then have "Suc l < j" using j' by simp
        with j(2) have "isBatchError (respond (k + Suc l) i)" by blast
        then show "isBatchError (respond (Suc k + l) i)" by simp
      qed
      moreover from j(3) j' have "respond (Suc k + j') i = Message raw" by simp
      moreover from j(1) j' have "j' < n" by simp
      ultimately show "\<exists>j<n. (\<forall>l<j. isBatchError (respond (Suc k + l) i)) \<and> respond (Suc k + j) i = Message raw"
        by blast
    next
      assume "\<exists>j<n. (\<forall>l<j. isBatchError (respond (Suc k + l) i)) \<and> respond (Suc k + j) i = Message raw"
      then obtain j where j: "j < n" "\<forall>l<j. isBatchError (respond (Suc k + l) i)"
          "respond (Suc k + j) i = Message raw"
        by blast
      have "\<forall>l<Suc j. isBatchError (respond (k + l) i)"
      proof (intro allI impI)
        fix l assume l: "l < Suc j"
        show "isBatchError (respond (k + l) i)"
        proof (cases l)
          case 0
          with BatchError show ?thesis by simp
        next
          case (Suc l')
          with l have "l' < j" by simp
          with j(2) have "isBatchError (respond (Suc k + l') i)" by blast
          with Suc show ?thesis by simp
        qed
      qed
      moreover from j(3) have "respond (k + Suc j) i = Message raw" by simp
      moreover from j(1) have "Suc j < Suc n" by simp
      ultimately show "\<exists>j<Suc n. (\<forall>l<j. isBatchError (respond (k + l) i)) \<and> respond (k + j) i = Message raw"
        by blast
    qed
    with BatchError Suc.IH [of "Suc k"] show ?thesis by simp
  qed
qed

subsection \<open>A batch without failures\<close>

text \<open>
  Claim C1. When at most 100 ids are requested with the default retry counter 0, and the
  batch response holds a raw message at every position (no failed entry), then
  \<open>getMessagesBatch\<close> returns normally, after exactly one request and nothing else, the list
  that holds at every position \<open>k\<close> the parser's output for the raw message answered for the
  \<open>k\<close>-th id: one parsed message for every requested id, none left out and none added.
\<close>

theorem getMessagesBatch_no_failures:
  assumes "length messageIds \<le> 100"
    and "getBatch env tr messageIds endpoint accessToken = map Message raws"
    and "length raws = length messageIds"
  shows "getMessagesBatch env messageIds accessToken 0 tr =
           (Inr (map (parseMessage env) raws), tr @ [BatchGet messageIds])
         \<and> length (map (parseMessage env) raws) = length messageIds
         \<and> (\<forall>k < length messageIds.
               getBatch env tr messageIds endpoint accessToken ! k = Message (raws ! k)
               \<and> map (parseMessage env) raws ! k = parseMessage env (raws ! k))"
  using assms
  by (simp add: getMessagesBatch_round missing_ids_def failed_ids_all_ok messages_of_all_ok
      error_logs_all_ok)

theorem getMessagesBatch_no_failures_witness:
  "length [Some ''a'', Some ''b''] \<le> 100
   \<and> getBatch (test_env (per_attempt (flaky [])) no_list) [] [Some ''a'', Some ''b''] endpoint ''token''
       = map Message [''raw a'', ''raw b'']
   \<and> getMessagesBatch (test_env (per_attempt (flaky [])) no_list) [Some ''a'', Some ''b''] ''token'' 0 []
       = (Inr [''parsed raw a'', ''parsed raw b''], [BatchGet [Some ''a'', Some ''b'']])"
  using getMessagesBatch_no_failures
    [of "[Some ''a'', Some ''b'']" "test_env (per_attempt (flaky [])) no_list" "[]" "''token''"
        "[''raw a'', ''raw b'']"]
  by (simp add: test_env_def per_attempt_def flaky_def)

subsection \<open>The retry bound\<close>

text \<open>
  Claim C3 as stated fails: the retry counter is a parameter of the exported function, and
  only its being above 3 stops the recursion. Entered with the counter \<open>-1\<close> on a remote
  side where the id fails every time, \<open>getMessagesBatch\<close> makes 5 batch requests (a first
  attempt and 4 retries), after suspensions of 0, 1000, 2000 and 3000 ms between them and one
  of 4000 ms before it gives up.
\<close>

theorem negative_counter_five_attempts_counterexample:
  "batch_requests (snd (getMessagesBatch (test_env (per_attempt (flaky [(''a'', 9)])) no_list)
       [Some ''a''] ''token'' (- 1) [])) = 5
   \<and> \<not> batch_requests (snd (getMessagesBatch (test_env (per_attempt (flaky [(''a'', 9)])) no_list)
       [Some ''a''] ''token'' (- 1) [])) \<le> 4
   \<and> sleeps (snd (getMessagesBatch (test_env (per_attempt (flaky [(''a'', 9)])) no_list)
       [Some ''a''] ''token'' (- 1) [])) = [0, 1000, 2000, 3000, 4000]
   \<and> fst (getMessagesBatch (test_env (per_attempt (flaky [(''a'', 9)])) no_list)
       [Some ''a''] ''token'' (- 1) []) = Inr []"
  by (simp add: getMessagesBatch.simps test_env_def per_attempt_def flaky_def batch_requests_def
      set_add_def js_index_def)

text \<open>
  Claim C3, amended. Entered with a retry counter above 3, \<open>getMessagesBatch\<close> logs the ids it
  was given and returns the empty list without any request. For every input the call
  returns, having extended the trace by at most \<open>4 - retryCount\<close> batch requests, so by at
  most 4 (a first attempt and 3 retries) when the counter starts at 0 or above, as it does by
  default, and by at most as many suspensions, whose delays are 1000 ms times the counter of
  the attempt they precede.
\<close>

theorem getMessagesBatch_retries_bounded:
  "(3 < retryCount \<longrightarrow>
      getMessagesBatch env messageIds accessToken retryCount tr
        = (Inr [], tr @ [LogTooManyRetries messageIds retryCount]))
   \<and> (\<exists>res evs. getMessagesBatch env messageIds accessToken retryCount tr = (res, tr @ evs)
         \<and> batch_requests evs \<le> nat (4 - retryCount)
         \<and> (0 \<le> retryCount \<longrightarrow> batch_requests evs \<le> 4)
         \<and> length (sleeps evs) \<le> nat (4 - retryCount)
         \<and> sleeps evs = map (\<lambda>l. 1000 * (retryCount + 1 + int l)) [0..<length (sleeps evs)])"
proof
  show "3 < retryCount \<longrightarrow>
      getMessagesBatch env messageIds accessToken retryCount tr
        = (Inr [], tr @ [LogTooManyRetries messageIds retryCount])"
    by (simp add: getMessagesBatch_exhausted)
next
  from getMessagesBatch_trace [of env messageIds accessToken retryCount tr]
  obtain res evs where *: "getMessagesBatch env messageIds accessToken retryCount tr = (res, tr @ evs)"
      "batch_requests evs \<le> nat (4 - retryCount)"
      "length (sleeps evs) \<le> nat (4 - retryCount)"
      "sleeps evs = map (\<lambda>l. 1000 * (retryCount + 1 + int l)) [0..<length (sleeps evs)]"
    by blast
  from *(2) have "0 \<le> retryCount \<longrightarrow> batch_requests evs \<le> 4"
    by linarith
  with * show "\<exists>res evs. getMessagesBatch env messageIds accessToken retryCount tr = (res, tr @ evs)
         \<and> batch_requests evs \<le> nat (4 - retryCount)
         \<and> (0 \<le> retryCount \<longrightarrow> batch_requests evs \<le> 4)
         \<and> length (sleeps evs) \<le> nat (4 - retryCount)
         \<and> sleeps evs = map (\<lambda>l. 1000 * (retryCount + 1 + int l)) [0..<length (sleeps evs)]"
    by blast
qed

theorem getMessagesBatch_retries_bounded_witness:
  "(3::int) < 4 \<and> (0::int) \<le> 4
   \<and> getMessagesBatch (test_env (per_attempt (flaky [(''a'', 9)])) no_list) [Some ''a''] ''token'' 4 []
       = (Inr [], [LogTooManyRetries [Some ''a''] 4])
   \<and> batch_requests (snd (getMessagesBatch (test_env (per_attempt (flaky [(''a'', 9)])) no_list)
         [Some ''a''] ''token'' 0 [])) = 4"
proof -
  have "getMessagesBatch (test_env (per_attempt (flaky [(''a'', 9)])) no_list) [Some ''a''] ''token'' 4 []
       = (Inr [], [LogTooManyRetries [Some ''a''] 4])"
    using getMessagesBatch_retries_bounded
      [of 4 "test_env (per_attempt (flaky [(''a'', 9)])) no_list" "[Some ''a'']" "''token''" "[]"]
    by simp
  moreover have "batch_requests (snd (getMessagesBatch (test_env (per_attempt (flaky [(''a'', 9)])) no_list)
         [Some ''a''] ''token'' 0 [])) = 4"
    by (simp add: getMessagesBatch.simps test_env_def per_attempt_def flaky_def batch_requests_def
        set_add_def js_index_def)
  ultimately show ?thesis by simp
qed

subsection \<open>Requests that are too large\<close>

text \<open>
  Claim C5 as stated fails: the check of the retry counter comes before the check of the
  size, so a call with 101 ids and a counter above 3 returns the empty list and raises
  nothing.
\<close>

theorem oversized_batch_exhausted_counterexample:
  "100 < length (replicate 101 (Some ''m''))
   \<and> getMessagesBatch (test_env (per_attempt (flaky [])) no_list) (replicate 101 (Some ''m''))
         ''token'' 4 []
       = (Inr [], [LogTooManyRetries (replicate 101 (Some ''m'')) 4])"
  by (simp add: getMessagesBatch_exhausted)

text \<open>
  Claim C5, amended. Every call of \<open>getMessagesBatch\<close> with more than 100 ids and a retry
  counter of at most 3, and every call of \<open>queryBatchMessages\<close> that asks for more than 20
  results, raises at once: the trace is unchanged, so no network call was made, nothing was
  retried and nothing was logged.
\<close>

theorem size_violations_raise:
  "(100 < length messageIds \<and> retryCount \<le> 3 \<longrightarrow>
      getMessagesBatch env messageIds accessToken retryCount tr
        = (Inl (Error ''Too many messages. Max 1000''), tr))
   \<and> (20 < m \<longrightarrow>
      queryBatchMessages env accessToken query (Some m) pageTokenOpt tr
        = (Inl (Error ''Max results must be 20 or Google will rate limit us and return 429 errors.''), tr))"
  by (simp add: getMessagesBatch_too_many queryBatchMessages_def)

theorem size_violations_raise_witness:
  "100 < length (replicate 101 (Some ''m'')) \<and> (0::int) \<le> 3 \<and> (20::int) < 21
   \<and> getMessagesBatch (test_env (per_attempt (flaky [])) no_list) (replicate 101 (Some ''m''))
         ''token'' 0 [] = (Inl (Error ''Too many messages. Max 1000''), [])
   \<and> queryBatchMessages (test_env (per_attempt (flaky [])) no_list) ''token'' (Some ''in:inbox'')
         (Some 21) None []
       = (Inl (Error ''Max results must be 20 or Google will rate limit us and return 429 errors.''), [])"
  using size_violations_raise
    [of "replicate 101 (Some ''m'')" 0 "test_env (per_attempt (flaky [])) no_list" "''token''" "[]" 21
        "Some ''in:inbox''" None]
  by simp

subsection \<open>Retrying the missing ids\<close>

text \<open>
  Claim C2. Take a call with a retry counter of at most 3 and at most 100 ids in which the
  set of missing ids after the batch request is not empty. Then the call makes the request,
  logs every failed entry and the missing ids, suspends for 1000 ms times \<open>retryCount + 1\<close>,
  calls itself on exactly the missing ids with the counter \<open>retryCount + 1\<close>, and returns
  the messages parsed at this level followed by the result of that call (an exception of
  that call is passed on). When the remote side answers every request with as many entries
  as it was asked for, that call returns normally, so the messages of this level are in the
  result. And when an id fails in the first and the second request and succeeds in the third,
  the parsed message of its third answer is in the result and the first two suspensions
  were 1000 ms and 2000 ms.
\<close>

theorem getMessagesBatch_retries_missing:
  assumes "retryCount \<le> 3" and "length messageIds \<le> 100"
    and "batch = getBatch env tr messageIds endpoint accessToken"
    and "missing = missing_ids messageIds batch"
    and "missing \<noteq> []"
    and "tr1 = tr @ BatchGet messageIds # error_logs batch
                @ [LogMissingMessages missing, Sleep (1000 * (retryCount + 1))]"
  shows "getMessagesBatch env messageIds accessToken retryCount tr =
           (case getMessagesBatch env missing accessToken (retryCount + 1) tr1 of
              (Inl e, tr2) \<Rightarrow> (Inl e, tr2)
            | (Inr missingMessages, tr2) \<Rightarrow>
                (Inr (messages_of (parseMessage env) batch @ missingMessages), tr2))
         \<and> ((\<forall>tr' ids. length (getBatch env tr' ids endpoint accessToken) = length ids) \<longrightarrow>
              (\<exists>missingMessages tr2.
                 getMessagesBatch env missing accessToken (retryCount + 1) tr1 = (Inr missingMessages, tr2)
                 \<and> getMessagesBatch env messageIds accessToken retryCount tr
                     = (Inr (messages_of (parseMessage env) batch @ missingMessages), tr2)))
         \<and> ((\<forall>tr' ids. getBatch env tr' ids endpoint accessToken = per_attempt respond tr' ids)
              \<and> retryCount = 0 \<and> batch_requests tr = 0 \<and> x \<in> set messageIds
              \<and> isBatchError (respond 0 x) \<and> isBatchError (respond 1 x) \<and> respond 2 x = Message raw \<longrightarrow>
              (\<exists>msgs evs.
                 getMessagesBatch env messageIds accessToken retryCount tr = (Inr msgs, tr @ evs)
                 \<and> parseMessage env raw \<in> set msgs
                 \<and> take 2 (sleeps evs) = [1000, 2000]))"
proof (intro conjI impI)
  obtain res tr2 where rec: "getMessagesBatch env missing accessToken (retryCount + 1) tr1 = (res, tr2)"
    by (cases "getMessagesBatch env missing accessToken (retryCount + 1) tr1") blast
  from getMessagesBatch_retry [OF assms(1-5) rec [unfolded assms(6)]]
  have step: "getMessagesBatch env messageIds accessToken retryCount tr =
      (case res of Inl e \<Rightarrow> Inl e
       | Inr missingMessages \<Rightarrow> Inr (messages_of (parseMessage env) batch @ missingMessages), tr2)" .
  show "getMessagesBatch env messageIds accessToken retryCount tr =
           (case getMessagesBatch env missing accessToken (retryCount + 1) tr1 of
              (Inl e, tr2) \<Rightarrow> (Inl e, tr2)
            | (Inr missingMessages, tr2) \<Rightarrow>
                (Inr (messages_of (parseMessage env) batch @ missingMessages), tr2))"
    unfolding rec step by (cases res) simp_all
  {
    assume aligned: "\<forall>tr' ids. length (getBatch env tr' ids endpoint accessToken) = length ids"
    have "length missing \<le> length batch"
      unfolding assms(4) by (rule length_missing_ids)
    with aligned assms(2,3) have "length missing \<le> 100"
      by simp
    from aligned_never_raises [of env accessToken missing "retryCount + 1" tr1, OF _ this] aligned
    obtain mm where "res = Inr mm"
      unfolding rec by auto
    with rec step
    show "\<exists>missingMessages tr2.
                 getMessagesBatch env missing accessToken (retryCount + 1) tr1 = (Inr missingMessages, tr2)
                 \<and> getMessagesBatch env messageIds accessToken retryCount tr
                     = (Inr (messages_of (parseMessage env) batch @ missingMessages), tr2)"
      by simp
  }
  {
    assume h: "(\<forall>tr' ids. getBatch env tr' ids endpoint accessToken = per_attempt respond tr' ids)
              \<and> retryCount = 0 \<and> batch_requests tr = 0 \<and> x \<in> set messageIds
              \<and> isBatchError (respond 0 x) \<and> isBatchError (respond 1 x) \<and> respond 2 x = Message raw"
    then have remote: "\<And>tr' ids. getBatch env tr' ids endpoint accessToken = per_attempt respond tr' ids"
      by blast
    from h have fresh: "batch_requests tr = 0" and x: "x \<in> set messageIds" and rc: "retryCount = 0"
      by simp_all
    from per_attempt_retries [of env accessToken respond messageIds 0 4 tr, OF remote assms(2) _ fresh]
    obtain msgs evs where res: "getMessagesBatch env messageIds accessToken 0 tr = (Inr msgs, tr @ evs)"
      and msgs: "set msgs = {parseMessage env raw | raw i. i \<in> set messageIds \<and> first_answer respond 0 4 i = Some raw}"
      and sl: "\<forall>i \<in> set messageIds. failures_from respond 0 4 i \<le> length (sleeps evs)"
      by auto
    from h have "first_answer respond 0 4 x = Some raw"
      by (cases "respond 0 x"; cases "respond 1 x") (simp_all add: numeral_eq_Suc)
    with x msgs have delivered: "parseMessage env raw \<in> set msgs"
      by blast
    from h have "failures_from respond 0 4 x = 2"
      by (simp add: numeral_eq_Suc)
    with sl x have two: "2 \<le> length (sleeps evs)"
      by force
    from getMessagesBatch_trace [of env messageIds accessToken 0 tr] res
    have "sleeps evs = map (\<lambda>l. 1000 * (0 + 1 + int l)) [0..<length (sleeps evs)]"
      by auto
    then have "take 2 (sleeps evs) = map (\<lambda>l. 1000 * (0 + 1 + int l)) (take 2 [0..<length (sleeps evs)])"
      by (metis take_map)
    also have "take 2 [0..<length (sleeps evs)] = [0, 1]"
      using two by (simp add: take_upt numeral_eq_Suc upt_conv_Cons)
    finally have "take 2 (sleeps evs) = [1000, 2000]"
      by simp
    with res delivered rc
    show "\<exists>msgs evs.
                 getMessagesBatch env messageIds accessToken retryCount tr = (Inr msgs, tr @ evs)
                 \<and> parseMessage env raw \<in> set msgs
                 \<and> take 2 (sleeps evs) = [1000, 2000]"
      by blast
  }
qed

theorem getMessagesBatch_retries_missing_witness:
  "(0::int) \<le> 3 \<and> length [Some ''a'', Some ''b''] \<le> 100
   \<and> missing_ids [Some ''a'', Some ''b'']
        (getBatch (test_env (per_attempt (flaky [(''b'', 2)])) no_list) [] [Some ''a'', Some ''b'']
           endpoint ''token'') = [Some ''b'']
   \<and> isBatchError (flaky [(''b'', 2)] 0 (Some ''b'')) \<and> isBatchError (flaky [(''b'', 2)] 1 (Some ''b''))
   \<and> flaky [(''b'', 2)] 2 (Some ''b'') = Message ''raw b''
   \<and> getMessagesBatch (test_env (per_attempt (flaky [(''b'', 2)])) no_list) [Some ''a'', Some ''b'']
         ''token'' 0 []
       = (Inr [''parsed raw a'', ''parsed raw b''],
          [BatchGet [Some ''a'', Some ''b''], LogErrorFetching 503 ''Service Unavailable'',
           LogMissingMessages [Some ''b''], Sleep 1000,
           BatchGet [Some ''b''], LogErrorFetching 503 ''Service Unavailable'',
           LogMissingMessages [Some ''b''], Sleep 2000,
           BatchGet [Some ''b'']])"
  using getMessagesBatch_retries_missing
    [of 0 "[Some ''a'', Some ''b'']" "[Message ''raw a'', BatchError 503 ''Service Unavailable'']"
        "test_env (per_attempt (flaky [(''b'', 2)])) no_list" "[]" "''token''" "[Some ''b'']"
        "[BatchGet [Some ''a'', Some ''b''], LogErrorFetching 503 ''Service Unavailable'',
          LogMissingMessages [Some ''b''], Sleep 1000]"
        "flaky [(''b'', 2)]" "Some ''b''" "''raw b''"]
  by (simp add: getMessagesBatch.simps test_env_def per_attempt_def flaky_def batch_requests_def
      set_add_def js_index_def missing_ids_def failed_ids_def)

subsection \<open>Ids that fail in every attempt\<close>

text \<open>
  Claim C4. On a remote side that answers per attempt, when an id \<open>x\<close> of a request of at
  most 100 ids fails in all four attempts, \<open>getMessagesBatch\<close> with the default counter
  returns normally. The result holds exactly the parsed first successful answers of the
  requested ids, so \<open>x\<close> contributes nothing while every id that succeeded in some attempt
  is delivered; the result is shorter than the request; and the last entry of the trace is
  the log entry for the ids that were given up, \<open>x\<close> among them.
\<close>

theorem getMessagesBatch_drops_exhausted:
  assumes remote: "\<forall>tr' ids. getBatch env tr' ids endpoint accessToken = per_attempt respond tr' ids"
    and len: "length messageIds \<le> 100"
    and fresh: "batch_requests tr = 0"
    and x: "x \<in> set messageIds"
    and fails: "\<forall>k<4. isBatchError (respond k x)"
  shows "\<exists>msgs evs m.
      getMessagesBatch env messageIds accessToken 0 tr = (Inr msgs, tr @ evs)
      \<and> set msgs = {parseMessage env raw | raw i.
                       i \<in> set messageIds \<and> first_answer respond 0 4 i = Some raw}
      \<and> first_answer respond 0 4 x = None
      \<and> (\<forall>i \<in> set messageIds. \<forall>k<4. \<forall>raw.
            (\<forall>j<k. isBatchError (respond j i)) \<and> respond k i = Message raw
              \<longrightarrow> parseMessage env raw \<in> set msgs)
      \<and> length msgs < length messageIds
      \<and> last evs = LogTooManyRetries m 4
      \<and> x \<in> set m
      \<and> set m = {i \<in> set messageIds. first_answer respond 0 4 i = None}"
proof -
  from remote have remote': "\<And>tr' ids. getBatch env tr' ids endpoint accessToken = per_attempt respond tr' ids"
    by blast
  have none: "first_answer respond 0 4 x = None"
  proof (cases "first_answer respond 0 4 x")
    case None
    then show ?thesis .
  next
    case (Some raw)
    then obtain j where "j < 4" "respond (0 + j) x = Message raw"
      unfolding first_answer_Some_iff by blast
    with fails have False
      by (metis add_0 batch_item.distinct(1) isBatchError.elims(2))
    then show ?thesis ..
  qed
  with x have ex: "\<exists>i \<in> set messageIds. first_answer respond 0 4 i = None"
    by blast
  from per_attempt_retries [of env accessToken respond messageIds 0 4 tr, OF remote' len _ fresh] ex
  obtain msgs evs m where res: "getMessagesBatch env messageIds accessToken 0 tr = (Inr msgs, tr @ evs)"
    and msgs: "set msgs = {parseMessage env raw | raw i.
                       i \<in> set messageIds \<and> first_answer respond 0 4 i = Some raw}"
    and short: "length msgs \<le> length (filter (\<lambda>i. first_answer respond 0 4 i \<noteq> None) messageIds)"
    and logged: "last evs = LogTooManyRetries m 4"
    and m: "set m = {i \<in> set messageIds. first_answer respond 0 4 i = None}"
    by auto
  have "length (filter (\<lambda>i. first_answer respond 0 4 i \<noteq> None) messageIds) < length messageIds"
    using x none by (intro length_filter_less [of x]) simp_all
  with short have shorter: "length msgs < length messageIds"
    by simp
  have every: "\<forall>i \<in> set messageIds. \<forall>k<4. \<forall>raw.
            (\<forall>j<k. isBatchError (respond j i)) \<and> respond k i = Message raw
              \<longrightarrow> parseMessage env raw \<in> set msgs"
  proof (intro ballI allI impI)
    fix i k raw
    assume i: "i \<in> set messageIds" and k: "k < 4"
      and "(\<forall>j<k. isBatchError (respond j i)) \<and> respond k i = Message raw"
    then have "\<exists>j<4. (\<forall>l<j. isBatchError (respond (0 + l) i)) \<and> respond (0 + j) i = Message raw"
      by auto
    then have "first_answer respond 0 4 i = Some raw"
      unfolding first_answer_Some_iff .
    with i show "parseMessage env raw \<in> set msgs"
      unfolding msgs by blast
  qed
  from x none m have "x \<in> set m"
    by simp
  with res msgs none every shorter logged m show ?thesis
    by blast
qed

theorem getMessagesBatch_drops_exhausted_witness:
  "length [Some ''a'', Some ''b''] \<le> 100 \<and> batch_requests [] = 0
   \<and> Some ''b'' \<in> set [Some ''a'', Some ''b'']
   \<and> isBatchError (flaky [(''b'', 9)] 0 (Some ''b'')) \<and> isBatchError (flaky [(''b'', 9)] 1 (Some ''b''))
   \<and> isBatchError (flaky [(''b'', 9)] 2 (Some ''b'')) \<and> isBatchError (flaky [(''b'', 9)] 3 (Some ''b''))
   \<and> getMessagesBatch (test_env (per_attempt (flaky [(''b'', 9)])) no_list) [Some ''a'', Some ''b'']
         ''token'' 0 []
       = (Inr [''parsed raw a''],
          [BatchGet [Some ''a'', Some ''b''], LogErrorFetching 503 ''Service Unavailable'',
           LogMissingMessages [Some ''b''], Sleep 1000,
           BatchGet [Some ''b''], LogErrorFetching 503 ''Service Unavailable'',
           LogMissingMessages [Some ''b''], Sleep 2000,
           BatchGet [Some ''b''], LogErrorFetching 503 ''Service Unavailable'',
           LogMissingMessages [Some ''b''], Sleep 3000,
           BatchGet [Some ''b''], LogErrorFetching 503 ''Service Unavailable'',
           LogMissingMessages [Some ''b''], Sleep 4000,
           LogTooManyRetries [Some ''b''] 4])"
  using getMessagesBatch_drops_exhausted
    [of "test_env (per_attempt (flaky [(''b'', 9)])) no_list" "''token''" "flaky [(''b'', 9)]"
        "[Some ''a'', Some ''b'']" "[]" "Some ''b''"]
  by (simp add: getMessagesBatch.simps test_env_def per_attempt_def flaky_def batch_requests_def
      set_add_def js_index_def)

section \<open>Properties of queryBatchMessages and queryBatchMessagesPages\<close>

subsection \<open>A page without messages\<close>

text \<open>
  Claim C6 as stated fails: the guard \<^verbatim>\<open>!messages.messages\<close> holds for an absent array only.
  When the list call answers an empty array together with a page token, the id list is empty
  but \<open>queryBatchMessages\<close> still calls \<open>getMessagesBatch\<close> (on no ids) and passes the token
  on.
\<close>

theorem queryBatchMessages_empty_array_counterexample:
  "or_empty (messages (list_messages (test_env (per_attempt (flaky [])) empty_array_list) []
       \<lparr>q = Some ''in:inbox'', maxResults = Some 20, pageToken = None, labelIds = None\<rparr>)) = []
   \<and> queryBatchMessages (test_env (per_attempt (flaky [])) empty_array_list) ''token''
        (Some ''in:inbox'') None None []
      = (Inr \<lparr>page_messages = [], page_nextPageToken = Some ''next''\<rparr>,
         [ListCall \<lparr>q = Some ''in:inbox'', maxResults = Some 20, pageToken = None, labelIds = None\<rparr>,
          BatchGet []])"
  by (simp add: queryBatchMessages_def getMessages_def getMessagesBatch.simps test_env_def
      per_attempt_def empty_array_list_def)

text \<open>
  Claim C6, amended. When the response of the list call has no messages array, a call of
  \<open>queryBatchMessages\<close> that asks for at most 20 results returns an empty list of messages
  and no page token, and the list call is all it adds to the trace: the batch fetcher is
  not called.
\<close>

theorem queryBatchMessages_no_messages:
  assumes "maxResults' = (case maxResultsOpt of None \<Rightarrow> 20 | Some m \<Rightarrow> m)"
    and "maxResults' \<le> 20"
    and "request = \<lparr>q = query, maxResults = Some maxResults', pageToken = pageTokenOpt, labelIds = None\<rparr>"
    and "messages (list_messages env tr request) = None"
  shows "queryBatchMessages env accessToken query maxResultsOpt pageTokenOpt tr
           = (Inr \<lparr>page_messages = [], page_nextPageToken = None\<rparr>, tr @ [ListCall request])"
  using assms by (simp add: queryBatchMessages_def getMessages_def Let_def)

theorem queryBatchMessages_no_messages_witness:
  "(20::int) \<le> 20
   \<and> messages (list_messages (test_env (per_attempt (flaky [])) no_list) []
        \<lparr>q = Some ''in:inbox'', maxResults = Some 20, pageToken = None, labelIds = None\<rparr>) = None
   \<and> queryBatchMessages (test_env (per_attempt (flaky [])) no_list) ''token'' (Some ''in:inbox'') None None []
      = (Inr \<lparr>page_messages = [], page_nextPageToken = None\<rparr>,
         [ListCall \<lparr>q = Some ''in:inbox'', maxResults = Some 20, pageToken = None, labelIds = None\<rparr>])"
  using queryBatchMessages_no_messages
    [of 20 None "\<lparr>q = Some ''in:inbox'', maxResults = Some 20, pageToken = None, labelIds = None\<rparr>"
        "Some ''in:inbox''" None "test_env (per_attempt (flaky [])) no_list" "[]" "''token''"]
  by (simp add: test_env_def no_list_def)

subsection \<open>Accumulating pages\<close>

lemma getMessagesBatch_all_ok:
  assumes "retryCount \<le> 3" and "length messageIds \<le> 100"
    and "getBatch env tr messageIds endpoint accessToken = map Message raws"
  shows "getMessagesBatch env messageIds accessToken retryCount tr =
           (Inr (map (parseMessage env) raws), tr @ [BatchGet messageIds])"
  using assms
  by (simp add: getMessagesBatch_round missing_ids_def failed_ids_all_ok messages_of_all_ok
      error_logs_all_ok)

lemma list_requests_append: "list_requests (a @ b) = list_requests a @ list_requests b"
  by (induction a rule: list_requests.induct) auto

lemma queryBatchMessages_page:
  assumes batch: "\<And>tr ids. getBatch env tr (map Some ids) endpoint accessToken = map (\<lambda>i. Message (raw i)) ids"
    and small: "length (filter_isDefined (or_empty (messages r))) \<le> 100"
    and r: "list_messages env tr (page_request query t) = r"
  shows "\<exists>evs. queryBatchMessages env accessToken (Some query) None t tr =
           (Inr \<lparr>page_messages = fst (page_view (\<lambda>i. parseMessage env (raw i)) r),
                 page_nextPageToken = snd (page_view (\<lambda>i. parseMessage env (raw i)) r)\<rparr>,
            tr @ ListCall (page_request query t) # evs)
         \<and> list_requests evs = [] \<and> list_calls evs = 0"
proof (cases "messages r")
  case None
  with r show ?thesis
    by (simp add: queryBatchMessages_def getMessages_def page_request_def page_view_def list_calls_def)
next
  case (Some ms)
  with small have "length (map Some (filter_isDefined ms)) \<le> 100"
    by simp
  moreover have "getBatch env (tr @ [ListCall (page_request query t)]) (map Some (filter_isDefined ms))
      endpoint accessToken = map Message (map raw (filter_isDefined ms))"
    by (simp add: batch)
  ultimately have "getMessagesBatch env (map Some (filter_isDefined ms)) accessToken 0
          (tr @ [ListCall (page_request query t)])
      = (Inr (map (parseMessage env) (map raw (filter_isDefined ms))),
         (tr @ [ListCall (page_request query t)]) @ [BatchGet (map Some (filter_isDefined ms))])"
    by (intro getMessagesBatch_all_ok) simp_all
  with r Some show ?thesis
    by (simp add: queryBatchMessages_def getMessages_def page_request_def [symmetric] page_view_def
        list_calls_def comp_def)
qed

lemma list_calls_append: "list_calls (a @ b) = list_calls a + list_calls b"
  by (simp add: list_calls_def)

lemma truthy_or_undefined: "truthy (or_undefined t) \<longleftrightarrow> truthy t"
  by (cases t) (auto simp: or_undefined_def)

lemma or_undefined_truthy: "truthy (or_undefined t) \<Longrightarrow> or_undefined t = t"
  by (simp add: or_undefined_def split: if_splits)

lemma loop_scripted:
  assumes batch: "\<And>tr ids. getBatch env tr (map Some ids) endpoint accessToken = map (\<lambda>i. Message (raw i)) ids"
    and lst: "\<And>tr request. list_messages env tr request = scripted ps tr request"
    and small: "\<forall>r \<in> set ps. length (filter_isDefined (or_empty (messages r))) \<le> 100"
  shows "list_calls tr = k \<Longrightarrow> k + n = length ps \<Longrightarrow>
    \<exists>evs. queryBatchMessagesPages_loop env accessToken query limit acc t tr
        = Some (Inr (fst (pages_spec limit acc t
                      (map (page_view (\<lambda>i. parseMessage env (raw i))) (drop k ps)))), tr @ evs)
      \<and> list_requests evs = map (page_request query)
          (snd (pages_spec limit acc t (map (page_view (\<lambda>i. parseMessage env (raw i))) (drop k ps))))"
proof (induction n arbitrary: k acc t tr)
  case 0
  then have r: "list_messages env tr (page_request query t) = empty_response"
    by (simp add: lst scripted_def)
  have "length (filter_isDefined (or_empty (messages empty_response))) \<le> 100"
    by (simp add: empty_response_def)
  from queryBatchMessages_page [of env accessToken raw, OF batch this r]
  obtain evs where page: "queryBatchMessages env accessToken (Some query) None t tr =
           (Inr \<lparr>page_messages = [], page_nextPageToken = None\<rparr>,
            tr @ ListCall (page_request query t) # evs)"
    and evs: "list_requests evs = []"
    by (auto simp: page_view_def empty_response_def)
  have "queryBatchMessagesPages_loop env accessToken query limit acc t tr
      = Some (Inr acc, tr @ ListCall (page_request query t) # evs)"
    by (subst queryBatchMessagesPages_loop.simps) (simp add: page or_undefined_def)
  with evs 0 show ?case
    by simp
next
  case (Suc n)
  then have k: "k < length ps" by simp
  define r where "r = ps ! k"
  define page where "page = fst (page_view (\<lambda>i. parseMessage env (raw i)) r)"
  define "next" where "next = snd (page_view (\<lambda>i. parseMessage env (raw i)) r)"
  have view: "page_view (\<lambda>i. parseMessage env (raw i)) r = (page, next)"
    by (simp add: page_def next_def)
  have script: "map (page_view (\<lambda>i. parseMessage env (raw i))) (drop k ps)
      = (page, next) # map (page_view (\<lambda>i. parseMessage env (raw i))) (drop (Suc k) ps)"
    using k by (simp add: Cons_nth_drop_Suc [symmetric] r_def view [symmetric])
  from k Suc.prems have resp: "list_messages env tr (page_request query t) = r"
    by (simp add: lst scripted_def r_def)
  from k small have "length (filter_isDefined (or_empty (messages r))) \<le> 100"
    by (simp add: r_def)
  from queryBatchMessages_page [of env accessToken raw, OF batch this resp]
  obtain evs1 where qbm: "queryBatchMessages env accessToken (Some query) None t tr =
           (Inr \<lparr>page_messages = page, page_nextPageToken = next\<rparr>,
            tr @ ListCall (page_request query t) # evs1)"
    and evs1: "list_requests evs1 = []" "list_calls evs1 = 0"
    by (auto simp: page_def next_def)
  show ?case
  proof (cases "truthy next \<and> int (length (acc @ page)) < limit")
    case False
    then have "queryBatchMessagesPages_loop env accessToken query limit acc t tr
        = Some (Inr (acc @ page), tr @ ListCall (page_request query t) # evs1)"
      by (subst queryBatchMessagesPages_loop.simps) (auto simp: qbm truthy_or_undefined)
    with False evs1 show ?thesis
      unfolding script by auto
  next
    case True
    then have more1: "truthy (or_undefined next)"
      by (simp add: truthy_or_undefined)
    note more = more1 or_undefined_truthy [OF more1]
    define tr1 where "tr1 = tr @ ListCall (page_request query t) # evs1"
    have calls: "list_calls tr1 = Suc k"
      using Suc.prems evs1 by (simp add: tr1_def list_calls_append list_calls_def)
    from Suc.prems have "Suc k + n = length ps" by simp
    from Suc.IH [OF calls this, of "acc @ page" "next"]
    obtain evs where rec: "queryBatchMessagesPages_loop env accessToken query limit (acc @ page) next tr1
        = Some (Inr (fst (pages_spec limit (acc @ page) next
                      (map (page_view (\<lambda>i. parseMessage env (raw i))) (drop (Suc k) ps)))), tr1 @ evs)"
      and reqs: "list_requests evs = map (page_request query)
          (snd (pages_spec limit (acc @ page) next
             (map (page_view (\<lambda>i. parseMessage env (raw i))) (drop (Suc k) ps))))"
      by blast
    have step: "queryBatchMessagesPages_loop env accessToken query limit acc t tr
        = queryBatchMessagesPages_loop env accessToken query limit (acc @ page) next tr1"
      using True more
      by (subst queryBatchMessagesPages_loop.simps) (simp add: qbm tr1_def)
    have tr: "tr1 @ evs = tr @ (ListCall (page_request query t) # evs1 @ evs)"
      by (simp add: tr1_def)
    have "list_requests (ListCall (page_request query t) # evs1 @ evs)
        = page_request query t # list_requests evs"
      by (simp add: list_requests_append evs1)
    with True rec reqs show ?thesis
      unfolding script step tr
      by (intro exI [of _ "ListCall (page_request query t) # evs1 @ evs"])
         (simp add: split_beta)
  qed
qed

lemma queryBatchMessagesPages_loop_round:
  "queryBatchMessagesPages_loop env accessToken query limit acc t tr =
     (case queryBatchMessages env accessToken (Some query) None t tr of
        (Inl e, tr1) \<Rightarrow> Some (Inl e, tr1)
      | (Inr page, tr1) \<Rightarrow>
          if truthy (page_nextPageToken page) \<and> int (length (acc @ page_messages page)) < limit
          then queryBatchMessagesPages_loop env accessToken query limit
                 (acc @ page_messages page) (page_nextPageToken page) tr1
          else Some (Inr (acc @ page_messages page), tr1))"
  by (subst queryBatchMessagesPages_loop.simps)
     (auto simp: truthy_or_undefined or_undefined_truthy split: prod.split sum.split)

lemma filter_isDefined_replicate: "filter_isDefined (replicate n (Some x)) = replicate n x"
  by (induction n) auto

lemma pages_spec_three:
  assumes "int (length p1) < limit" and "int (length p1 + length p2) < limit"
    and "truthy t1" and "truthy t2"
    and "limit \<le> int (length p1 + length p2 + length p3) \<or> \<not> truthy t3"
  shows "fst (pages_spec limit [] None [(p1, t1), (p2, t2), (p3, t3)]) = p1 @ p2 @ p3"
  using assms by auto

lemma pages_scripted:
  assumes batch: "\<forall>tr ids. getBatch env tr (map Some ids) endpoint accessToken = map (\<lambda>i. Message (raw i)) ids"
    and lst: "\<forall>tr request. list_messages env tr request = scripted ps tr request"
    and small: "\<forall>r \<in> set ps. length (filter_isDefined (or_empty (messages r))) \<le> 100"
    and fresh: "list_calls tr = 0"
    and view: "script = map (page_view (\<lambda>i. parseMessage env (raw i))) ps"
  shows "\<exists>msgs evs.
      queryBatchMessagesPages env accessToken query limit tr = Some (Inr msgs, tr @ evs)
      \<and> msgs = fst (pages_spec limit [] None script)
      \<and> list_requests evs = map (page_request query) (snd (pages_spec limit [] None script))
      \<and> (limit = 45 \<and> map (\<lambda>(page, t). length page) script = [20, 20, 20]
           \<and> map (\<lambda>(page, t). truthy t) (take 2 script) = [True, True] \<longrightarrow> length msgs = 60)
      \<and> (limit = 45 \<and> map (\<lambda>(page, t). length page) script = [20, 20, 3]
           \<and> map (\<lambda>(page, t). truthy t) script = [True, True, False] \<longrightarrow> length msgs = 43)"
proof -
  from loop_scripted [of env accessToken raw ps tr 0 "length ps" query limit "[]" None] batch lst small fresh
  obtain evs where res: "queryBatchMessagesPages env accessToken query limit tr
        = Some (Inr (fst (pages_spec limit [] None script)), tr @ evs)"
    and reqs: "list_requests evs = map (page_request query) (snd (pages_spec limit [] None script))"
    unfolding queryBatchMessagesPages_def view by auto
  have ex60: "length (fst (pages_spec limit [] None script)) = 60"
    if "limit = 45 \<and> map (\<lambda>(page, t). length page) script = [20, 20, 20]
           \<and> map (\<lambda>(page, t). truthy t) (take 2 script) = [True, True]"
  proof -
    from that obtain p1 t1 p2 t2 p3 t3 where s: "script = [(p1, t1), (p2, t2), (p3, t3)]"
      by (auto simp: map_eq_Cons_conv)
    with that have "length p1 = 20" "length p2 = 20" "length p3 = 20" "truthy t1" "truthy t2" "limit = 45"
      by simp_all
    then have "fst (pages_spec limit [] None [(p1, t1), (p2, t2), (p3, t3)]) = p1 @ p2 @ p3"
      by (intro pages_spec_three) simp_all
    with s \<open>length p1 = 20\<close> \<open>length p2 = 20\<close> \<open>length p3 = 20\<close> show ?thesis
      by simp
  qed
  have ex43: "length (fst (pages_spec limit [] None script)) = 43"
    if "limit = 45 \<and> map (\<lambda>(page, t). length page) script = [20, 20, 3]
           \<and> map (\<lambda>(page, t). truthy t) script = [True, True, False]"
  proof -
    from that obtain p1 t1 p2 t2 p3 t3 where s: "script = [(p1, t1), (p2, t2), (p3, t3)]"
      by (auto simp: map_eq_Cons_conv)
    with that have "length p1 = 20" "length p2 = 20" "length p3 = 3" "truthy t1" "truthy t2" "\<not> truthy t3"
        "limit = 45"
      by simp_all
    then have "fst (pages_spec limit [] None [(p1, t1), (p2, t2), (p3, t3)]) = p1 @ p2 @ p3"
      by (intro pages_spec_three) simp_all
    with s \<open>length p1 = 20\<close> \<open>length p2 = 20\<close> \<open>length p3 = 3\<close> show ?thesis
      by simp
  qed
  from res reqs ex60 ex43 show ?thesis
    by blast
qed

text \<open>
  Claim C7. \<open>queryBatchMessagesPages\<close> is its loop started with no messages and no page
  token, and one round of the loop, for every environment, fetches one page with the current
  token (asking for the default of 20 results), appends all of its messages, and goes on with
  the token of that page exactly when there is one and the count is still below the limit;
  else it returns what it has collected, also past the limit.
  Moreover, let the remote side serve a script of list responses, each with at most 100
  listed ids, and answer every batch request without failures. Started on a trace without
  list calls, \<open>queryBatchMessagesPages\<close> returns normally what the specification's
  accumulation gives on the pages of the script. Every list call asks for at most 20
  results, the first without a page token and each later one with the token of the page
  before. With the limit 45 and pages of 20, 20 and 20 messages it returns 60 messages, and
  with pages of 20, 20 and 3 messages, the last without a token, it returns 43.
\<close>

theorem queryBatchMessagesPages_accumulates:
  "queryBatchMessagesPages env accessToken query limit tr
     = queryBatchMessagesPages_loop env accessToken query limit [] None tr
   \<and> queryBatchMessagesPages_loop env accessToken query limit acc t tr' =
       (case queryBatchMessages env accessToken (Some query) None t tr' of
          (Inl e, tr1) \<Rightarrow> Some (Inl e, tr1)
        | (Inr page, tr1) \<Rightarrow>
            if truthy (page_nextPageToken page) \<and> int (length (acc @ page_messages page)) < limit
            then queryBatchMessagesPages_loop env accessToken query limit
                   (acc @ page_messages page) (page_nextPageToken page) tr1
            else Some (Inr (acc @ page_messages page), tr1))
   \<and> ((\<forall>tr ids. getBatch env tr (map Some ids) endpoint accessToken = map (\<lambda>i. Message (raw i)) ids)
        \<and> (\<forall>tr request. list_messages env tr request = scripted ps tr request)
        \<and> (\<forall>r \<in> set ps. length (filter_isDefined (or_empty (messages r))) \<le> 100)
        \<and> list_calls tr = 0
        \<and> script = map (page_view (\<lambda>i. parseMessage env (raw i))) ps \<longrightarrow>
       (\<exists>msgs evs.
          queryBatchMessagesPages env accessToken query limit tr = Some (Inr msgs, tr @ evs)
          \<and> msgs = fst (pages_spec limit [] None script)
          \<and> list_requests evs = map (page_request query) (snd (pages_spec limit [] None script))
          \<and> (limit = 45 \<and> map (\<lambda>(page, t). length page) script = [20, 20, 20]
               \<and> map (\<lambda>(page, t). truthy t) (take 2 script) = [True, True] \<longrightarrow> length msgs = 60)
          \<and> (limit = 45 \<and> map (\<lambda>(page, t). length page) script = [20, 20, 3]
               \<and> map (\<lambda>(page, t). truthy t) script = [True, True, False] \<longrightarrow> length msgs = 43)))"
proof (intro conjI impI)
  show "queryBatchMessagesPages env accessToken query limit tr
     = queryBatchMessagesPages_loop env accessToken query limit [] None tr"
    by (simp add: queryBatchMessagesPages_def)
  show "queryBatchMessagesPages_loop env accessToken query limit acc t tr' =
       (case queryBatchMessages env accessToken (Some query) None t tr' of
          (Inl e, tr1) \<Rightarrow> Some (Inl e, tr1)
        | (Inr page, tr1) \<Rightarrow>
            if truthy (page_nextPageToken page) \<and> int (length (acc @ page_messages page)) < limit
            then queryBatchMessagesPages_loop env accessToken query limit
                   (acc @ page_messages page) (page_nextPageToken page) tr1
            else Some (Inr (acc @ page_messages page), tr1))"
    by (rule queryBatchMessagesPages_loop_round)
  assume h: "(\<forall>tr ids. getBatch env tr (map Some ids) endpoint accessToken = map (\<lambda>i. Message (raw i)) ids)
        \<and> (\<forall>tr request. list_messages env tr request = scripted ps tr request)
        \<and> (\<forall>r \<in> set ps. length (filter_isDefined (or_empty (messages r))) \<le> 100)
        \<and> list_calls tr = 0
        \<and> script = map (page_view (\<lambda>i. parseMessage env (raw i))) ps"
  then have 1: "\<forall>tr ids. getBatch env tr (map Some ids) endpoint accessToken = map (\<lambda>i. Message (raw i)) ids"
    and 2: "\<forall>tr request. list_messages env tr request = scripted ps tr request"
    and 3: "\<forall>r \<in> set ps. length (filter_isDefined (or_empty (messages r))) \<le> 100"
    and 4: "list_calls tr = 0"
    and 5: "script = map (page_view (\<lambda>i. parseMessage env (raw i))) ps"
    by blast+
  show "\<exists>msgs evs.
          queryBatchMessagesPages env accessToken query limit tr = Some (Inr msgs, tr @ evs)
          \<and> msgs = fst (pages_spec limit [] None script)
          \<and> list_requests evs = map (page_request query) (snd (pages_spec limit [] None script))
          \<and> (limit = 45 \<and> map (\<lambda>(page, t). length page) script = [20, 20, 20]
               \<and> map (\<lambda>(page, t). truthy t) (take 2 script) = [True, True] \<longrightarrow> length msgs = 60)
          \<and> (limit = 45 \<and> map (\<lambda>(page, t). length page) script = [20, 20, 3]
               \<and> map (\<lambda>(page, t). truthy t) script = [True, True, False] \<longrightarrow> length msgs = 43)"
    by (rule pages_scripted [OF 1 2 3 4 5])
qed

lemma per_attempt_all_ok:
  "getBatch (test_env (per_attempt (flaky [])) lst) tr (map Some ids) endpoint accessToken
     = map (\<lambda>i. Message (''raw '' @ i)) ids"
  by (simp add: test_env_def per_attempt_def flaky_def)

theorem queryBatchMessagesPages_accumulates_witness:
  "list_calls [] = 0
   \<and> result_length (queryBatchMessagesPages
        (test_env (per_attempt (flaky []))
           (scripted [page_of_size 20 (Some ''t1''), page_of_size 20 (Some ''t2''),
                      page_of_size 20 (Some ''t3'')]))
        ''token'' ''in:inbox'' 45 []) = Some 60
   \<and> result_length (queryBatchMessagesPages
        (test_env (per_attempt (flaky []))
           (scripted [page_of_size 20 (Some ''t1''), page_of_size 20 (Some ''t2''),
                      page_of_size 3 None]))
        ''token'' ''in:inbox'' 45 []) = Some 43"
proof -
  have "result_length (queryBatchMessagesPages
        (test_env (per_attempt (flaky [])) (scripted [page_of_size 20 (Some ''t1''), page_of_size 20 (Some ''t2''),
                      page_of_size n t]))
        ''token'' ''in:inbox'' 45 []) = Some (40 + n)" if "n = 20 \<and> t = Some ''t3'' \<or> n = 3 \<and> t = None" for n t
  proof -
    define ps where "ps = [page_of_size 20 (Some ''t1''), page_of_size 20 (Some ''t2''), page_of_size n t]"
    define env :: "(string, string) env" where "env = test_env (per_attempt (flaky [])) (scripted ps)"
    define script where "script = map (page_view (\<lambda>i. parseMessage env (''raw '' @ i))) ps"
    have 1: "\<forall>tr ids. getBatch env tr (map Some ids) endpoint ''token'' = map (\<lambda>i. Message (''raw '' @ i)) ids"
      by (simp add: env_def per_attempt_all_ok)
    have 2: "\<forall>tr request. list_messages env tr request = scripted ps tr request"
      by (simp add: env_def test_env_def)
    have 3: "\<forall>r \<in> set ps. length (filter_isDefined (or_empty (messages r))) \<le> 100"
      using that by (auto simp: ps_def page_of_size_def filter_isDefined_replicate)
    have sizes: "map (\<lambda>(page, t). length page) script = [20, 20, n]"
      by (simp add: script_def ps_def page_view_def page_of_size_def filter_isDefined_replicate)
    have tokens: "map (\<lambda>(page, t). truthy t) script = [True, True, truthy t]"
      by (simp add: script_def ps_def page_view_def page_of_size_def)
    have "list_calls [] = 0"
      by (simp add: list_calls_def)
    with 1 2 3 script_def
    have "(\<forall>tr ids. getBatch env tr (map Some ids) endpoint ''token'' = map (\<lambda>i. Message (''raw '' @ i)) ids)
        \<and> (\<forall>tr request. list_messages env tr request = scripted ps tr request)
        \<and> (\<forall>r \<in> set ps. length (filter_isDefined (or_empty (messages r))) \<le> 100)
        \<and> list_calls [] = 0
        \<and> script = map (page_view (\<lambda>i. parseMessage env (''raw '' @ i))) ps"
      by blast
    from queryBatchMessagesPages_accumulates
      [of env "''token''" "''in:inbox''" 45 "[]" "[]" None "[]" "\<lambda>i. ''raw '' @ i" ps script,
       THEN conjunct2, THEN conjunct2, THEN mp, OF this]
    obtain msgs evs where res: "queryBatchMessagesPages env ''token'' ''in:inbox'' 45 [] = Some (Inr msgs, evs)"
      and a: "map (\<lambda>(page, t). length page) script = [20, 20, 20]
           \<and> map (\<lambda>(page, t). truthy t) (take 2 script) = [True, True] \<longrightarrow> length msgs = 60"
      and b: "map (\<lambda>(page, t). length page) script = [20, 20, 3]
           \<and> map (\<lambda>(page, t). truthy t) script = [True, True, False] \<longrightarrow> length msgs = 43"
      by auto
    have "map (\<lambda>(page, t). truthy t) (take 2 script) = take 2 (map (\<lambda>(page, t). truthy t) script)"
      by (rule take_map [symmetric])
    with tokens have first_two: "map (\<lambda>(page, t). truthy t) (take 2 script) = [True, True]"
      by simp
    from that have "length msgs = 40 + n"
    proof
      assume "n = 20 \<and> t = Some ''t3''"
      with a sizes first_two show ?thesis by simp
    next
      assume "n = 3 \<and> t = None"
      with b sizes tokens show ?thesis by simp
    qed
    with res show ?thesis
      by (simp add: result_length_def env_def ps_def)
  qed
  from this [of 20 "Some ''t3''"] this [of 3 None] show ?thesis
    by (simp add: list_calls_def)
qed

section \<open>Properties of the search for previous communication\<close>

lemma find_differs: "find P xs \<noteq> None \<longleftrightarrow> (\<exists>x \<in> set xs. P x)"
  by (auto simp: find_None_iff)

lemma hasPreviousCommunicationWithSender_eq:
  "hasPreviousCommunicationWithSender env options tr =
     ((\<exists>p \<in> set (or_empty (messages (list_messages env tr
                       (incoming_request env (sender_from options) (date options))))
                  @ or_empty (messages (list_messages env
                       (tr @ [ListCall (incoming_request env (sender_from options) (date options))])
                       (outgoing_request env (sender_from options) (date options))))).
         p \<noteq> Some (messageId options)),
      tr @ [ListCall (incoming_request env (sender_from options) (date options)),
            ListCall (outgoing_request env (sender_from options) (date options))])"
  unfolding hasPreviousCommunicationWithSender_def findPreviousEmailsWithSender_def
    incoming_request_def outgoing_request_def Let_def prod.case find_differs ..

text \<open>
  Claim C8. \<open>hasPreviousCommunicationWithSender\<close> makes two list calls: the incoming search
  \<^verbatim>\<open>from:<sender> before:<seconds>\<close> for at most 2 results, then the outgoing search
  \<^verbatim>\<open>to:<sender> before:<seconds>\<close> for at most 1 result, where the seconds are the date in
  milliseconds divided by 1000. It returns true if and only if one of the ids found by the
  two searches differs from the id of the current message; so it returns false when the
  current message is all that was found.
\<close>

theorem hasPreviousCommunicationWithSender_searches:
  assumes "incoming = incoming_request env (sender_from options) (date options)"
    and "outgoing = outgoing_request env (sender_from options) (date options)"
    and "found = or_empty (messages (list_messages env tr incoming))
                 @ or_empty (messages (list_messages env (tr @ [ListCall incoming]) outgoing))"
  shows "hasPreviousCommunicationWithSender env options tr
           = ((\<exists>p \<in> set found. p \<noteq> Some (messageId options)), tr @ [ListCall incoming, ListCall outgoing])
         \<and> q incoming = Some (''from:'' @ sender_from options @ '' before:''
                                @ numberToString env (of_int (date options) / 1000))
         \<and> maxResults incoming = Some 2
         \<and> q outgoing = Some (''to:'' @ sender_from options @ '' before:''
                                @ numberToString env (of_int (date options) / 1000))
         \<and> maxResults outgoing = Some 1
         \<and> (set found \<subseteq> {Some (messageId options)}
              \<longrightarrow> \<not> fst (hasPreviousCommunicationWithSender env options tr))"
  unfolding assms hasPreviousCommunicationWithSender_eq
  by (auto simp: incoming_request_def outgoing_request_def)

theorem hasPreviousCommunicationWithSender_searches_witness:
  "hasPreviousCommunicationWithSender
     (test_env (per_attempt (flaky []))
        (fixed_list [(''from:a@gmail.com before:1700000000'', [Some ''cur''])]))
     \<lparr>sender_from = ''a@gmail.com'', date = 1700000000000, messageId = ''cur''\<rparr> []
   = (False,
      [ListCall \<lparr>q = Some ''from:a@gmail.com before:1700000000'', maxResults = Some 2,
                 pageToken = None, labelIds = None\<rparr>,
       ListCall \<lparr>q = Some ''to:a@gmail.com before:1700000000'', maxResults = Some 1,
                 pageToken = None, labelIds = None\<rparr>])
   \<and> fst (hasPreviousCommunicationWithSender
     (test_env (per_attempt (flaky []))
        (fixed_list [(''from:a@gmail.com before:1700000000'', [Some ''cur'', Some ''old''])]))
     \<lparr>sender_from = ''a@gmail.com'', date = 1700000000000, messageId = ''cur''\<rparr> [])"
  using hasPreviousCommunicationWithSender_searches
    [OF refl refl refl, of "test_env (per_attempt (flaky []))
        (fixed_list [(''from:a@gmail.com before:1700000000'', [Some ''cur''])])"
      "\<lparr>sender_from = ''a@gmail.com'', date = 1700000000000, messageId = ''cur''\<rparr>" "[]"]
    hasPreviousCommunicationWithSender_searches
    [OF refl refl refl, of "test_env (per_attempt (flaky []))
        (fixed_list [(''from:a@gmail.com before:1700000000'', [Some ''cur'', Some ''old''])])"
      "\<lparr>sender_from = ''a@gmail.com'', date = 1700000000000, messageId = ''cur''\<rparr>" "[]"]
  by (simp add: test_env_def fixed_list_def incoming_request_def outgoing_request_def)

lemma hasPreviousCommunicationWithSender_trace:
  "snd (hasPreviousCommunicationWithSender env options tr)
     = tr @ [ListCall (incoming_request env (sender_from options) (date options)),
             ListCall (outgoing_request env (sender_from options) (date options))]"
  by (simp add: hasPreviousCommunicationWithSender_eq)

text \<open>
  Claim C9. When the sender has a domain, \<open>hasPreviousCommunicationsWithSenderOrDomain\<close> is
  \<open>hasPreviousCommunicationWithSender\<close> for a search term chosen by the lower-cased domain:
  the full sender address when it is in \<open>PUBLIC_DOMAINS\<close>, the domain otherwise; the two
  searches are made with that term. So the sender \<^verbatim>\<open>a@acme.com\<close> with the domain
  \<^verbatim>\<open>acme.com\<close> is searched as \<^verbatim>\<open>acme.com\<close>, and the sender \<^verbatim>\<open>a@gmail.com\<close> with the domain
  \<^verbatim>\<open>gmail.com\<close> is searched as \<^verbatim>\<open>a@gmail.com\<close>.
\<close>

theorem search_term_by_public_domain:
  assumes "extractDomainFromEmail env (sender_from options) = Some domain" and "domain \<noteq> []"
    and "searchTerm = (if toLowerCase domain \<in> PUBLIC_DOMAINS then sender_from options else domain)"
  shows "hasPreviousCommunicationsWithSenderOrDomain env options tr
           = hasPreviousCommunicationWithSender env (options\<lparr>sender_from := searchTerm\<rparr>) tr
         \<and> snd (hasPreviousCommunicationsWithSenderOrDomain env options tr)
             = tr @ [ListCall (incoming_request env searchTerm (date options)),
                     ListCall (outgoing_request env searchTerm (date options))]
         \<and> (toLowerCase domain \<in> PUBLIC_DOMAINS \<longrightarrow> searchTerm = sender_from options)
         \<and> (toLowerCase domain \<notin> PUBLIC_DOMAINS \<longrightarrow> searchTerm = domain)
         \<and> (sender_from options = ''a@acme.com'' \<and> domain = ''acme.com'' \<longrightarrow> searchTerm = ''acme.com'')
         \<and> (sender_from options = ''a@gmail.com'' \<and> domain = ''gmail.com'' \<longrightarrow> searchTerm = ''a@gmail.com'')"
proof -
  have 1: "hasPreviousCommunicationsWithSenderOrDomain env options tr
           = hasPreviousCommunicationWithSender env (options\<lparr>sender_from := searchTerm\<rparr>) tr"
    using assms by (simp add: hasPreviousCommunicationsWithSenderOrDomain_def)
  have 2: "snd (hasPreviousCommunicationsWithSenderOrDomain env options tr)
             = tr @ [ListCall (incoming_request env searchTerm (date options)),
                     ListCall (outgoing_request env searchTerm (date options))]"
    unfolding 1 hasPreviousCommunicationWithSender_trace by simp
  have acme: "toLowerCase ''acme.com'' \<notin> PUBLIC_DOMAINS"
    by (simp add: toLowerCase_def lower_char_def PUBLIC_DOMAINS_def)
  have gmail: "toLowerCase ''gmail.com'' \<in> PUBLIC_DOMAINS"
    by (simp add: toLowerCase_def lower_char_def PUBLIC_DOMAINS_def)
  from 1 2 acme gmail assms(3) show ?thesis
    by auto
qed

theorem search_term_by_public_domain_witness:
  "extractDomainFromEmail (test_env (per_attempt (flaky [])) no_list) ''a@acme.com'' = Some ''acme.com''
   \<and> extractDomainFromEmail (test_env (per_attempt (flaky [])) no_list) ''a@gmail.com'' = Some ''gmail.com''
   \<and> snd (hasPreviousCommunicationsWithSenderOrDomain (test_env (per_attempt (flaky [])) no_list)
        \<lparr>sender_from = ''a@acme.com'', date = 1700000000000, messageId = ''cur''\<rparr> [])
      = [ListCall \<lparr>q = Some ''from:acme.com before:1700000000'', maxResults = Some 2,
                    pageToken = None, labelIds = None\<rparr>,
         ListCall \<lparr>q = Some ''to:acme.com before:1700000000'', maxResults = Some 1,
                    pageToken = None, labelIds = None\<rparr>]
   \<and> snd (hasPreviousCommunicationsWithSenderOrDomain (test_env (per_attempt (flaky [])) no_list)
        \<lparr>sender_from = ''a@gmail.com'', date = 1700000000000, messageId = ''cur''\<rparr> [])
      = [ListCall \<lparr>q = Some ''from:a@gmail.com before:1700000000'', maxResults = Some 2,
                    pageToken = None, labelIds = None\<rparr>,
         ListCall \<lparr>q = Some ''to:a@gmail.com before:1700000000'', maxResults = Some 1,
                    pageToken = None, labelIds = None\<rparr>]"
proof -
  define env :: "(string, string) env" where "env = test_env (per_attempt (flaky [])) no_list"
  have acme: "extractDomainFromEmail env ''a@acme.com'' = Some ''acme.com''"
    and gmail: "extractDomainFromEmail env ''a@gmail.com'' = Some ''gmail.com''"
    by (simp_all add: env_def test_env_def domain_after_at_def)
  have render: "numberToString env x = ''1700000000''" for x
    by (simp add: env_def test_env_def)
  have "toLowerCase ''acme.com'' \<notin> PUBLIC_DOMAINS"
    by (simp add: toLowerCase_def lower_char_def PUBLIC_DOMAINS_def)
  with search_term_by_public_domain
    [of env "\<lparr>sender_from = ''a@acme.com'', date = 1700000000000, messageId = ''cur''\<rparr>" "''acme.com''"
        "''acme.com''" "[]", THEN conjunct2, THEN conjunct1] acme
  have a: "snd (hasPreviousCommunicationsWithSenderOrDomain env
        \<lparr>sender_from = ''a@acme.com'', date = 1700000000000, messageId = ''cur''\<rparr> [])
      = [ListCall (incoming_request env ''acme.com'' 1700000000000),
         ListCall (outgoing_request env ''acme.com'' 1700000000000)]"
    by simp
  have "toLowerCase ''gmail.com'' \<in> PUBLIC_DOMAINS"
    by (simp add: toLowerCase_def lower_char_def PUBLIC_DOMAINS_def)
  with search_term_by_public_domain
    [of env "\<lparr>sender_from = ''a@gmail.com'', date = 1700000000000, messageId = ''cur''\<rparr>" "''gmail.com''"
        "''a@gmail.com''" "[]", THEN conjunct2, THEN conjunct1] gmail
  have g: "snd (hasPreviousCommunicationsWithSenderOrDomain env
        \<lparr>sender_from = ''a@gmail.com'', date = 1700000000000, messageId = ''cur''\<rparr> [])
      = [ListCall (incoming_request env ''a@gmail.com'' 1700000000000),
         ListCall (outgoing_request env ''a@gmail.com'' 1700000000000)]"
    by simp
  from acme gmail a g show ?thesis
    unfolding incoming_request_def outgoing_request_def render
    by (simp add: env_def)
qed

text \<open>
  Claim C10. When the lower-cased domain of the sender is \<^verbatim>\<open>me.com\<close> or \<^verbatim>\<open>hey.com\<close>, the
  search term is the domain: \<open>PUBLIC_DOMAINS\<close> holds \<^verbatim>\<open>@me.com\<close> and \<^verbatim>\<open>@hey.com\<close>, with the
  leading \<^verbatim>\<open>@\<close>, and neither \<^verbatim>\<open>me.com\<close> nor \<^verbatim>\<open>hey.com\<close>, so the membership test fails.
\<close>

theorem me_and_hey_searched_by_domain:
  assumes "extractDomainFromEmail env (sender_from options) = Some domain"
    and "toLowerCase domain = ''me.com'' \<or> toLowerCase domain = ''hey.com''"
  shows "hasPreviousCommunicationsWithSenderOrDomain env options tr
           = hasPreviousCommunicationWithSender env (options\<lparr>sender_from := domain\<rparr>) tr
         \<and> snd (hasPreviousCommunicationsWithSenderOrDomain env options tr)
             = tr @ [ListCall (incoming_request env domain (date options)),
                     ListCall (outgoing_request env domain (date options))]
         \<and> toLowerCase domain \<notin> PUBLIC_DOMAINS
         \<and> ''@me.com'' \<in> PUBLIC_DOMAINS \<and> ''@hey.com'' \<in> PUBLIC_DOMAINS
         \<and> ''me.com'' \<notin> PUBLIC_DOMAINS \<and> ''hey.com'' \<notin> PUBLIC_DOMAINS"
proof -
  from assms(2) have notin: "toLowerCase domain \<notin> PUBLIC_DOMAINS"
    by (auto simp: PUBLIC_DOMAINS_def)
  from assms(2) have "domain \<noteq> []"
    by (auto simp: toLowerCase_def)
  with assms(1) notin have 1: "hasPreviousCommunicationsWithSenderOrDomain env options tr
           = hasPreviousCommunicationWithSender env (options\<lparr>sender_from := domain\<rparr>) tr"
    by (simp add: hasPreviousCommunicationsWithSenderOrDomain_def)
  have 2: "snd (hasPreviousCommunicationsWithSenderOrDomain env options tr)
             = tr @ [ListCall (incoming_request env domain (date options)),
                     ListCall (outgoing_request env domain (date options))]"
    unfolding 1 hasPreviousCommunicationWithSender_trace by simp
  from 1 2 notin show ?thesis
    by (simp add: PUBLIC_DOMAINS_def)
qed

theorem me_and_hey_searched_by_domain_witness:
  "extractDomainFromEmail (test_env (per_attempt (flaky [])) no_list) ''Ann@Me.com'' = Some ''Me.com''
   \<and> toLowerCase ''Me.com'' = ''me.com''
   \<and> snd (hasPreviousCommunicationsWithSenderOrDomain (test_env (per_attempt (flaky [])) no_list)
        \<lparr>sender_from = ''Ann@Me.com'', date = 1700000000000, messageId = ''cur''\<rparr> [])
      = [ListCall \<lparr>q = Some ''from:Me.com before:1700000000'', maxResults = Some 2,
                    pageToken = None, labelIds = None\<rparr>,
         ListCall \<lparr>q = Some ''to:Me.com before:1700000000'', maxResults = Some 1,
                    pageToken = None, labelIds = None\<rparr>]"
proof -
  define env :: "(string, string) env" where "env = test_env (per_attempt (flaky [])) no_list"
  have me: "extractDomainFromEmail env ''Ann@Me.com'' = Some ''Me.com''"
    by (simp add: env_def test_env_def domain_after_at_def)
  have lower: "toLowerCase ''Me.com'' = ''me.com''"
    by (simp add: toLowerCase_def lower_char_def)
  have render: "numberToString env x = ''1700000000''" for x
    by (simp add: env_def test_env_def)
  from me_and_hey_searched_by_domain
    [of env "\<lparr>sender_from = ''Ann@Me.com'', date = 1700000000000, messageId = ''cur''\<rparr>" "''Me.com''" "[]",
     THEN conjunct2, THEN conjunct1]
    me lower
  have "snd (hasPreviousCommunicationsWithSenderOrDomain env
        \<lparr>sender_from = ''Ann@Me.com'', date = 1700000000000, messageId = ''cur''\<rparr> [])
      = [ListCall (incoming_request env ''Me.com'' 1700000000000),
         ListCall (outgoing_request env ''Me.com'' 1700000000000)]"
    by simp
  with me lower show ?thesis
    unfolding incoming_request_def outgoing_request_def render
    by (simp add: env_def)
qed

end
